theory Spec2Isabelle
  imports Complex_Main
begin

section \<open>Data model\<close>

text \<open>
  The server keeps all of its state in process-wide maps keyed by the connection
  identifier (\<open>socket.id\<close>).  A socket is a shared object: the orchestrator, the buffer
  manager and the closures of scheduled pacer steps all hold a reference to it, so the
  model keeps sockets in a store (\<open>connected\<close>) and passes references.
  Time stamps (\<open>Date.now()\<close>, \<open>new Date().toISOString()\<close>) and console output are left out.
\<close>

type_synonym userId = string
type_synonym sockRef = nat
type_synonym timeoutId = nat

text \<open>
  Names follow the source.  A leading underscore is dropped (\<open>_sendNextBlock\<close> is
  \<open>sendNextBlock\<close>, \<open>_setTimer\<close> is \<open>setTimer\<close>, \<open>_handleBufferComplete\<close> is
  \<open>handleBufferComplete\<close>, and so on), and the fields \<open>text\<close> and \<open>group\<close> of a block are
  \<open>blockText\<close> and \<open>blockGroup\<close>.

  A block \<open>{ text, typingTime, group }\<close> as validated by \<open>GeminiService.updateBuffer\<close>: a
  string and two numbers (\<open>typeof block.typingTime === 'number'\<close>).  The typing time is a
  JavaScript number, that is an IEEE 754 double: \<open>Finite r\<close> stands for the double whose value
  is the rational \<open>r\<close>, and \<open>JSON.parse\<close> also yields the two infinities (from a literal
  such as \<open>1e999\<close>).  The sign of zero is left out.  The group is an integer (groups are only
  compared).
\<close>

datatype number = Finite rat | PosInfinity | NegInfinity | NaN

record block =
  blockText :: string
  typingTime :: number
  blockGroup :: int

record historyEntry =
  role :: string
  content :: string

record bufferState =
  blocks :: "block list"
  currentIndex :: nat
  currentGroup :: "int option"
  isComplete :: bool
  isPaused :: bool

record typingState =
  isTyping :: bool
  shouldUseIdleTimer :: bool

record updateCheckState =
  needsUpdate :: bool
  waitingForGroup :: bool

record endUpdateState =
  timerActive :: bool
  userMessagedSinceLastEndUpdate :: bool

record session =
  history :: "historyEntry list"
  buffer :: bufferState
  typing :: typingState
  updateCheck :: updateCheckState
  endUpdate :: endUpdateState

datatype clientEvent =
    MessageReceived string
  | AiBlock string int
  | AiComplete
  | ErrorEvent string string

datatype timerType = TypingIdle | MaxTyping | GroupDelay | EndUpdate

text \<open>
  The callbacks handed to \<open>TimerManager\<close>, one constructor per arrow function in
  \<open>StateOrchestrator\<close>: \<open>handleTypingStatus\<close> (max typing, typing idle),
  \<open>_startGroupDelayFlow\<close> (group delay and the idle timer it starts) and
  \<open>_handleBufferComplete\<close> (end update).
\<close>

datatype timerCallback =
    MaxTypingExpired
  | TypingIdleExpired
  | GroupDelayExpired
  | IdleAfterGroupDelayExpired
  | EndUpdateExpired

text \<open>
  What \<open>setTimeout\<close> holds: the wrapper of \<open>TimerManager._setTimer\<close>, or the arrow
  function of \<open>BufferManager._sendNextBlock\<close> with the arguments it closes over (the two
  booleans say whether \<open>onGroupComplete\<close> and \<open>onBufferComplete\<close> were supplied; the only
  callbacks in the program are the orchestrator's two handlers).
\<close>

datatype closure =
    TimerFire userId timerType timerCallback
  | PacerStep userId "sockRef option" bool bool

text \<open>A call to the language model that has not returned yet, with its arguments.\<close>

datatype llmCall =
    UpdateCheckCall userId "historyEntry list" "block list" nat
  | UpdateBufferCall userId "historyEntry list" "block list"

datatype callbackCall =
    GroupCompleteCall userId "int option"
  | BufferCompleteCall userId

record server =
  sessions :: "userId \<rightharpoonup> session"
  timers :: "userId \<rightharpoonup> (timerType \<rightharpoonup> timeoutId)"
  sendingTimeouts :: "userId \<rightharpoonup> timeoutId"
  bufferSockets :: "userId \<rightharpoonup> sockRef"
  userSockets :: "userId \<rightharpoonup> sockRef"
  connected :: "sockRef \<Rightarrow> bool"
  scheduled :: "timeoutId \<rightharpoonup> rat \<times> closure"
  nextTimeoutId :: timeoutId
  awaiting :: "llmCall list"
  emitted :: "(sockRef \<times> clientEvent) list"
  calls :: "callbackCall list"

definition initialServer :: server where
  "initialServer = \<lparr> sessions = Map.empty, timers = Map.empty, sendingTimeouts = Map.empty,
     bufferSockets = Map.empty, userSockets = Map.empty, connected = (\<lambda>_. False),
     scheduled = Map.empty, nextTimeoutId = 0, awaiting = [], emitted = [], calls = [] \<rparr>"

section \<open>The runtime: numbers\<close>

text \<open>
  The product of two doubles is the exact product rounded to the nearest double, ties to
  the even significand.  \<open>bitLength n\<close> is the number of binary digits of a positive integer,
  \<open>binaryExponent a\<close> the exponent \<open>e\<close> with \<open>2 ^ e \<le> a < 2 ^ (e + 1)\<close> of a positive
  rational, and \<open>roundDouble\<close> rounds to 53 significant bits, to a multiple of \<open>2 ^ - 1074\<close> in
  the subnormal range, and to an infinity from \<open>2 ^ 1024\<close> on.
\<close>

function bitLength :: "int \<Rightarrow> nat" where
  "bitLength n = (if n \<le> 0 then 0 else Suc (bitLength (n div 2)))"
  by pat_completeness auto

termination
  by (relation "measure nat") auto

declare bitLength.simps [simp del]

definition binaryExponent :: "rat \<Rightarrow> int" where
  "binaryExponent a =
     (if 1 \<le> a then int (bitLength \<lfloor>a\<rfloor>) - 1
      else - int (bitLength (\<lceil>1 / a\<rceil> - 1)))"

definition roundHalfEven :: "rat \<Rightarrow> int" where
  "roundHalfEven x =
     (let f = \<lfloor>x\<rfloor>; r = x - of_int f in
      if r < 1 / 2 then f else if 1 / 2 < r then f + 1 else if even f then f else f + 1)"

definition roundDouble :: "rat \<Rightarrow> number" where
  "roundDouble x =
     (if x = 0 then Finite 0
      else
        let a = \<bar>x\<bar>;
            q = max (binaryExponent a - 52) (- 1074);
            y = of_int (roundHalfEven (a / 2 powi q)) * 2 powi q
        in if 2 ^ 1024 \<le> y then (if 0 < x then PosInfinity else NegInfinity)
           else Finite (if 0 < x then y else - y))"

text \<open>The number that \<open>JSON.parse\<close> reads from a decimal literal with the exact value \<open>r\<close>.\<close>

definition jsonNumber :: "rat \<Rightarrow> number" where
  "jsonNumber r = roundDouble r"

text \<open>The operator \<open>*\<close> on numbers.\<close>

fun multiply :: "number \<Rightarrow> number \<Rightarrow> number" where
  "multiply (Finite a) (Finite b) = roundDouble (a * b)"
| "multiply NaN y = NaN"
| "multiply x NaN = NaN"
| "multiply (Finite a) PosInfinity =
     (if a = 0 then NaN else if 0 < a then PosInfinity else NegInfinity)"
| "multiply (Finite a) NegInfinity =
     (if a = 0 then NaN else if 0 < a then NegInfinity else PosInfinity)"
| "multiply PosInfinity (Finite b) =
     (if b = 0 then NaN else if 0 < b then PosInfinity else NegInfinity)"
| "multiply NegInfinity (Finite b) =
     (if b = 0 then NaN else if 0 < b then NegInfinity else PosInfinity)"
| "multiply PosInfinity PosInfinity = PosInfinity"
| "multiply PosInfinity NegInfinity = NegInfinity"
| "multiply NegInfinity PosInfinity = NegInfinity"
| "multiply NegInfinity NegInfinity = PosInfinity"

text \<open>\<open>Math.max\<close> of two numbers.\<close>

fun mathMax :: "number \<Rightarrow> number \<Rightarrow> number" where
  "mathMax NaN y = NaN"
| "mathMax x NaN = NaN"
| "mathMax PosInfinity y = PosInfinity"
| "mathMax x PosInfinity = PosInfinity"
| "mathMax NegInfinity y = y"
| "mathMax x NegInfinity = x"
| "mathMax (Finite a) (Finite b) = Finite (max a b)"

section \<open>The runtime: \<open>setTimeout\<close>, \<open>clearTimeout\<close>, \<open>socket.emit\<close>\<close>

text \<open>
  The delay with which Node.js sets up a timer: a delay that is not between 1 and
  2147483647 milliseconds (the largest 32-bit signed integer), or is not a number, is
  replaced by 1 millisecond.
\<close>

fun timeoutDelay :: "number \<Rightarrow> rat" where
  "timeoutDelay (Finite r) = (if 1 \<le> r \<and> r \<le> 2147483647 then r else 1)"
| "timeoutDelay PosInfinity = 1"
| "timeoutDelay NegInfinity = 1"
| "timeoutDelay NaN = 1"

definition setTimeout :: "closure \<Rightarrow> number \<Rightarrow> server \<Rightarrow> server" where
  "setTimeout c delay s =
     s\<lparr> scheduled := (scheduled s)(nextTimeoutId s \<mapsto> (timeoutDelay delay, c)),
        nextTimeoutId := nextTimeoutId s + 1 \<rparr>"

definition clearTimeout :: "timeoutId \<Rightarrow> server \<Rightarrow> server" where
  "clearTimeout i s = s\<lparr> scheduled := (scheduled s)(i := None) \<rparr>"

definition emit :: "sockRef \<Rightarrow> clientEvent \<Rightarrow> server \<Rightarrow> server" where
  "emit sk e s = s\<lparr> emitted := emitted s @ [(sk, e)] \<rparr>"

section \<open>UserSessionManager\<close>

definition newSession :: session where
  "newSession = \<lparr> history = [],
     buffer = \<lparr> blocks = [], currentIndex = 0, currentGroup = None,
                isComplete = False, isPaused = False \<rparr>,
     typing = \<lparr> isTyping = False, shouldUseIdleTimer = False \<rparr>,
     updateCheck = \<lparr> needsUpdate = False, waitingForGroup = False \<rparr>,
     endUpdate = \<lparr> timerActive = False, userMessagedSinceLastEndUpdate = False \<rparr> \<rparr>"

text \<open>\<open>getSession\<close> creates the session on first access: \<open>theSession\<close> is the object it
  returns, \<open>getSession\<close> the store afterwards.\<close>

definition theSession :: "server \<Rightarrow> userId \<Rightarrow> session" where
  "theSession s u = (case sessions s u of None \<Rightarrow> newSession | Some x \<Rightarrow> x)"

definition getSession :: "userId \<Rightarrow> server \<Rightarrow> server" where
  "getSession u s = s\<lparr> sessions := (sessions s)(u \<mapsto> theSession s u) \<rparr>"

definition updSession :: "userId \<Rightarrow> (session \<Rightarrow> session) \<Rightarrow> server \<Rightarrow> server" where
  "updSession u f s = s\<lparr> sessions := (sessions s)(u \<mapsto> f (theSession s u)) \<rparr>"

definition addUserMessage :: "userId \<Rightarrow> string \<Rightarrow> server \<Rightarrow> server" where
  "addUserMessage u m =
     updSession u (\<lambda>x. x\<lparr> history := history x @ [\<lparr> role = ''user'', content = m \<rparr>] \<rparr>)"

definition addAIMessage :: "userId \<Rightarrow> string \<Rightarrow> server \<Rightarrow> server" where
  "addAIMessage u m =
     updSession u (\<lambda>x. x\<lparr> history := history x @ [\<lparr> role = ''model'', content = m \<rparr>] \<rparr>)"

text \<open>\<open>history.slice(-limit)\<close> when \<open>limit\<close> is truthy, the whole history otherwise.\<close>

definition getHistory :: "userId \<Rightarrow> nat option \<Rightarrow> server \<Rightarrow> historyEntry list" where
  "getHistory u limit s =
     (let h = history (theSession s u) in
      case limit of
        None \<Rightarrow> h
      | Some n \<Rightarrow> if n = 0 then h else drop (length h - n) h)"

definition setBuffer :: "userId \<Rightarrow> block list \<Rightarrow> server \<Rightarrow> server" where
  "setBuffer u bs =
     updSession u (\<lambda>x. x\<lparr> buffer :=
       \<lparr> blocks = bs, currentIndex = 0,
         currentGroup = (case bs of [] \<Rightarrow> None | b # _ \<Rightarrow> Some (blockGroup b)),
         isComplete = False, isPaused = False \<rparr> \<rparr>)"

text \<open>\<open>getNextBlock\<close> marks the buffer complete when the cursor is past the end.\<close>

definition getNextBlock :: "userId \<Rightarrow> server \<Rightarrow> block option \<times> server" where
  "getNextBlock u s =
     (let b = buffer (theSession s u) in
      if currentIndex b \<ge> length (blocks b)
      then (None, updSession u (\<lambda>x. x\<lparr> buffer := (buffer x)\<lparr> isComplete := True \<rparr> \<rparr>) s)
      else (Some (blocks b ! currentIndex b), getSession u s))"

definition advanceBlock :: "userId \<Rightarrow> server \<Rightarrow> server" where
  "advanceBlock u =
     updSession u (\<lambda>x.
       let b = buffer x; i = currentIndex b + 1 in
       x\<lparr> buffer :=
           (if i < length (blocks b)
            then b\<lparr> currentIndex := i, currentGroup := Some (blockGroup (blocks b ! i)) \<rparr>
            else b\<lparr> currentIndex := i, isComplete := True, currentGroup := None \<rparr>) \<rparr>)"

definition isCurrentGroupComplete :: "userId \<Rightarrow> server \<Rightarrow> bool" where
  "isCurrentGroupComplete u s =
     (let b = buffer (theSession s u) in
      if isComplete b then True
      else if currentIndex b \<ge> length (blocks b) then True
      else \<not> list_ex (\<lambda>blk. Some (blockGroup blk) = currentGroup b)
                      (drop (currentIndex b) (blocks b)))"

definition getCurrentGroup :: "userId \<Rightarrow> server \<Rightarrow> int option" where
  "getCurrentGroup u s = currentGroup (buffer (theSession s u))"

definition isBufferComplete :: "userId \<Rightarrow> server \<Rightarrow> bool" where
  "isBufferComplete u s = isComplete (buffer (theSession s u))"

definition pauseBuffer :: "userId \<Rightarrow> server \<Rightarrow> server" where
  "pauseBuffer u = updSession u (\<lambda>x. x\<lparr> buffer := (buffer x)\<lparr> isPaused := True \<rparr> \<rparr>)"

definition resumeBuffer :: "userId \<Rightarrow> server \<Rightarrow> server" where
  "resumeBuffer u = updSession u (\<lambda>x. x\<lparr> buffer := (buffer x)\<lparr> isPaused := False \<rparr> \<rparr>)"

definition isBufferPaused :: "userId \<Rightarrow> server \<Rightarrow> bool" where
  "isBufferPaused u s = isPaused (buffer (theSession s u))"

definition markBufferComplete :: "userId \<Rightarrow> server \<Rightarrow> server" where
  "markBufferComplete u = updSession u (\<lambda>x. x\<lparr> buffer := (buffer x)\<lparr> isComplete := True \<rparr> \<rparr>)"

definition setTypingState :: "userId \<Rightarrow> bool \<Rightarrow> server \<Rightarrow> server" where
  "setTypingState u v = updSession u (\<lambda>x. x\<lparr> typing := (typing x)\<lparr> isTyping := v \<rparr> \<rparr>)"

definition getTypingState :: "userId \<Rightarrow> server \<Rightarrow> typingState" where
  "getTypingState u s = typing (theSession s u)"

definition enableIdleTimer :: "userId \<Rightarrow> server \<Rightarrow> server" where
  "enableIdleTimer u =
     updSession u (\<lambda>x. x\<lparr> typing := (typing x)\<lparr> shouldUseIdleTimer := True \<rparr> \<rparr>)"

definition disableIdleTimer :: "userId \<Rightarrow> server \<Rightarrow> server" where
  "disableIdleTimer u =
     updSession u (\<lambda>x. x\<lparr> typing := (typing x)\<lparr> shouldUseIdleTimer := False \<rparr> \<rparr>)"

definition setUpdateCheckNeeded :: "userId \<Rightarrow> bool \<Rightarrow> server \<Rightarrow> server" where
  "setUpdateCheckNeeded u v =
     updSession u (\<lambda>x. x\<lparr> updateCheck := (updateCheck x)\<lparr> needsUpdate := v \<rparr> \<rparr>)"

definition getUpdateCheckState :: "userId \<Rightarrow> server \<Rightarrow> updateCheckState" where
  "getUpdateCheckState u s = updateCheck (theSession s u)"

definition setWaitingForGroup :: "userId \<Rightarrow> bool \<Rightarrow> server \<Rightarrow> server" where
  "setWaitingForGroup u v =
     updSession u (\<lambda>x. x\<lparr> updateCheck := (updateCheck x)\<lparr> waitingForGroup := v \<rparr> \<rparr>)"

definition setEndUpdateTimer :: "userId \<Rightarrow> bool \<Rightarrow> server \<Rightarrow> server" where
  "setEndUpdateTimer u v =
     updSession u (\<lambda>x. x\<lparr> endUpdate := (endUpdate x)\<lparr> timerActive := v \<rparr> \<rparr>)"

definition getEndUpdateState :: "userId \<Rightarrow> server \<Rightarrow> endUpdateState" where
  "getEndUpdateState u s = endUpdate (theSession s u)"

definition setUserMessagedSinceEndUpdate :: "userId \<Rightarrow> bool \<Rightarrow> server \<Rightarrow> server" where
  "setUserMessagedSinceEndUpdate u v =
     updSession u (\<lambda>x. x\<lparr> endUpdate := (endUpdate x)\<lparr> userMessagedSinceLastEndUpdate := v \<rparr> \<rparr>)"

definition hasUserMessagedSinceEndUpdate :: "userId \<Rightarrow> server \<Rightarrow> bool" where
  "hasUserMessagedSinceEndUpdate u s = userMessagedSinceLastEndUpdate (endUpdate (theSession s u))"

definition clearSession :: "userId \<Rightarrow> server \<Rightarrow> server" where
  "clearSession u s = s\<lparr> sessions := (sessions s)(u := None) \<rparr>"

section \<open>TimerManager\<close>

text \<open>\<open>_getUserTimers\<close> creates the user's timer object on first access.\<close>

definition userTimersOf :: "server \<Rightarrow> userId \<Rightarrow> (timerType \<rightharpoonup> timeoutId)" where
  "userTimersOf s u = (case timers s u of None \<Rightarrow> Map.empty | Some m \<Rightarrow> m)"

definition getUserTimers :: "userId \<Rightarrow> server \<Rightarrow> server" where
  "getUserTimers u s = s\<lparr> timers := (timers s)(u \<mapsto> userTimersOf s u) \<rparr>"

definition clearTimer :: "userId \<Rightarrow> timerType \<Rightarrow> server \<Rightarrow> server" where
  "clearTimer u t s =
     (case userTimersOf s u t of
        None \<Rightarrow> getUserTimers u s
      | Some i \<Rightarrow> (clearTimeout i s)\<lparr> timers := (timers s)(u \<mapsto> (userTimersOf s u)(t := None)) \<rparr>)"

definition setTimer :: "userId \<Rightarrow> timerType \<Rightarrow> timerCallback \<Rightarrow> number \<Rightarrow> server \<Rightarrow> server" where
  "setTimer u t cb delay s =
     (let s1 = clearTimer u t s;
          i = nextTimeoutId s1;
          s2 = setTimeout (TimerFire u t cb) delay s1
      in s2\<lparr> timers := (timers s2)(u \<mapsto> (userTimersOf s2 u)(t \<mapsto> i)) \<rparr>)"

definition startTypingIdleTimer :: "userId \<Rightarrow> timerCallback \<Rightarrow> server \<Rightarrow> server" where
  "startTypingIdleTimer u cb = setTimer u TypingIdle cb (Finite 5000)"

definition startMaxTypingTimer :: "userId \<Rightarrow> timerCallback \<Rightarrow> server \<Rightarrow> server" where
  "startMaxTypingTimer u cb = setTimer u MaxTyping cb (Finite 30000)"

definition startGroupDelayTimer :: "userId \<Rightarrow> timerCallback \<Rightarrow> server \<Rightarrow> server" where
  "startGroupDelayTimer u cb = setTimer u GroupDelay cb (Finite 2000)"

definition startEndUpdateTimer :: "userId \<Rightarrow> timerCallback \<Rightarrow> server \<Rightarrow> server" where
  "startEndUpdateTimer u cb = setTimer u EndUpdate cb (Finite 25000)"

text \<open>\<open>cancelAllTimers\<close> clears every key of the user's timer object; clearing a name
  that is not a key only creates the (already created) object, so the four names are
  cleared in turn.\<close>

definition cancelAllTimers :: "userId \<Rightarrow> server \<Rightarrow> server" where
  "cancelAllTimers u s =
     clearTimer u EndUpdate (clearTimer u GroupDelay (clearTimer u MaxTyping
       (clearTimer u TypingIdle (getUserTimers u s))))"

definition cancelTypingTimers :: "userId \<Rightarrow> server \<Rightarrow> server" where
  "cancelTypingTimers u s = clearTimer u MaxTyping (clearTimer u TypingIdle s)"

definition cancelEndUpdateTimer :: "userId \<Rightarrow> server \<Rightarrow> server" where
  "cancelEndUpdateTimer u = clearTimer u EndUpdate"

definition cancelGroupDelayTimer :: "userId \<Rightarrow> server \<Rightarrow> server" where
  "cancelGroupDelayTimer u = clearTimer u GroupDelay"

definition isTimerActive :: "userId \<Rightarrow> timerType \<Rightarrow> server \<Rightarrow> bool \<times> server" where
  "isTimerActive u t s = (userTimersOf s u t \<noteq> None, getUserTimers u s)"

definition timerCleanup :: "userId \<Rightarrow> server \<Rightarrow> server" where
  "timerCleanup u s = (let s1 = cancelAllTimers u s in s1\<lparr> timers := (timers s1)(u := None) \<rparr>)"

section \<open>StateOrchestrator: the callbacks the pacer invokes\<close>

definition startGroupDelayFlow :: "userId \<Rightarrow> server \<Rightarrow> server" where
  "startGroupDelayFlow u = startGroupDelayTimer u GroupDelayExpired"

text \<open>\<open>_handleGroupComplete\<close>; its first statement (the log line) is kept as the record
  that the callback ran.\<close>

definition handleGroupComplete :: "userId \<Rightarrow> int option \<Rightarrow> server \<Rightarrow> server" where
  "handleGroupComplete u groupId s =
     (let s1 = s\<lparr> calls := calls s @ [GroupCompleteCall u groupId] \<rparr>;
          s2 = getSession u s1;
          st = getUpdateCheckState u s2
      in if needsUpdate st \<and> waitingForGroup st
         then startGroupDelayFlow u (setWaitingForGroup u False s2)
         else s2)"

definition getSocket :: "userId \<Rightarrow> server \<Rightarrow> sockRef option" where
  "getSocket u s = userSockets s u"

definition handleBufferComplete :: "userId \<Rightarrow> server \<Rightarrow> server" where
  "handleBufferComplete u s =
     (let s1 = s\<lparr> calls := calls s @ [BufferCompleteCall u] \<rparr>;
          s2 = (case getSocket u s1 of None \<Rightarrow> s1 | Some sk \<Rightarrow> emit sk AiComplete s1);
          s3 = getSession u s2
      in if needsUpdate (getUpdateCheckState u s3)
         then startGroupDelayFlow u s3
         else if hasUserMessagedSinceEndUpdate u s3
              then startEndUpdateTimer u EndUpdateExpired (setEndUpdateTimer u True s3)
              else s3)"

section \<open>BufferManager\<close>

definition stopSending :: "userId \<Rightarrow> server \<Rightarrow> server" where
  "stopSending u s =
     (case sendingTimeouts s u of
        None \<Rightarrow> s
      | Some i \<Rightarrow> (clearTimeout i s)\<lparr> sendingTimeouts := (sendingTimeouts s)(u := None) \<rparr>)"

definition isSending :: "userId \<Rightarrow> server \<Rightarrow> bool" where
  "isSending u s = (sendingTimeouts s u \<noteq> None)"

text \<open>\<open>!socket || !socket.connected\<close>.\<close>

definition socketDead :: "sockRef option \<Rightarrow> server \<Rightarrow> bool" where
  "socketDead socket s = (case socket of None \<Rightarrow> True | Some sk \<Rightarrow> \<not> connected s sk)"

text \<open>\<open>Math.max(block.typingTime * 1000, 1000)\<close>.\<close>

definition blockDelay :: "block \<Rightarrow> number" where
  "blockDelay blk = mathMax (multiply (typingTime blk) (Finite 1000)) (Finite 1000)"

definition sendNextBlock :: "userId \<Rightarrow> sockRef option \<Rightarrow> bool \<Rightarrow> bool \<Rightarrow> server \<Rightarrow> server" where
  "sendNextBlock u socket onGroupComplete onBufferComplete s =
     (case socket of
        None \<Rightarrow> stopSending u s
      | Some sk \<Rightarrow>
          if \<not> connected s sk then stopSending u s
          else
            let s1 = getSession u s in
            if isBufferPaused u s1 then s1
            else if needsUpdate (getUpdateCheckState u s1)
                    \<and> \<not> waitingForGroup (getUpdateCheckState u s1)
            then s1\<lparr> sendingTimeouts := (sendingTimeouts s1)(u := None) \<rparr>
            else
              (case getNextBlock u s1 of
                 (None, s2) \<Rightarrow>
                   let s3 = s2\<lparr> sendingTimeouts := (sendingTimeouts s2)(u := None) \<rparr>
                   in if onBufferComplete then handleBufferComplete u s3 else s3
               | (Some blk, s2) \<Rightarrow>
                   let currentGroup0 = getCurrentGroup u s2;
                       s3 = emit sk (AiBlock (blockText blk) (blockGroup blk)) s2;
                       s4 = addAIMessage u (blockText blk) s3;
                       previousGroup = currentGroup0;
                       s5 = advanceBlock u s4;
                       newGroup = getCurrentGroup u s5;
                       s6 = (if previousGroup \<noteq> newGroup \<and> onGroupComplete
                             then handleGroupComplete u previousGroup s5 else s5);
                       delay = blockDelay blk;
                       timeoutId = nextTimeoutId s6;
                       s7 = setTimeout (PacerStep u socket onGroupComplete onBufferComplete)
                                       delay s6
                   in s7\<lparr> sendingTimeouts := (sendingTimeouts s7)(u \<mapsto> timeoutId) \<rparr>))"

definition startSendingBuffer :: "userId \<Rightarrow> sockRef option \<Rightarrow> bool \<Rightarrow> bool \<Rightarrow> server \<Rightarrow> server" where
  "startSendingBuffer u socket onGroupComplete onBufferComplete s =
     (case socket of
        None \<Rightarrow> s
      | Some sk \<Rightarrow>
          if \<not> connected s sk then s
          else
            let s1 = s\<lparr> bufferSockets := (bufferSockets s)(u \<mapsto> sk) \<rparr>;
                s2 = stopSending u s1;
                s3 = resumeBuffer u s2
            in sendNextBlock u socket onGroupComplete onBufferComplete s3)"

definition pauseSending :: "userId \<Rightarrow> server \<Rightarrow> server" where
  "pauseSending u s = pauseBuffer u (stopSending u s)"

definition resumeSending :: "userId \<Rightarrow> sockRef option \<Rightarrow> bool \<Rightarrow> bool \<Rightarrow> server \<Rightarrow> server" where
  "resumeSending u socket onGroupComplete onBufferComplete s =
     (let s1 = getSession u s in
      if \<not> isBufferPaused u s1 then s1
      else sendNextBlock u socket onGroupComplete onBufferComplete (resumeBuffer u s1))"

definition bufferCleanup :: "userId \<Rightarrow> server \<Rightarrow> server" where
  "bufferCleanup u s =
     (let s1 = stopSending u s in s1\<lparr> bufferSockets := (bufferSockets s1)(u := None) \<rparr>)"

section \<open>StateOrchestrator\<close>

definition registerSocket :: "userId \<Rightarrow> sockRef \<Rightarrow> server \<Rightarrow> server" where
  "registerSocket u sk s = s\<lparr> userSockets := (userSockets s)(u \<mapsto> sk) \<rparr>"

text \<open>
  \<open>triggerUpdateBuffer\<close> is an async function: it runs up to the call of
  \<open>geminiService.updateBuffer\<close>, which is left pending in \<open>awaiting\<close>, and resumes when
  the call returns blocks (\<open>Inr\<close>) or throws (\<open>Inl\<close>, the error message).
\<close>

definition triggerUpdateBuffer :: "userId \<Rightarrow> server \<Rightarrow> server" where
  "triggerUpdateBuffer u s =
     (let s1 = cancelAllTimers u s;
          s2 = stopSending u s1;
          hist = getHistory u None s2;
          s3 = getSession u s2;
          b = buffer (theSession s3 u);
          pendingBlocks = drop (currentIndex b) (blocks b)
      in s3\<lparr> awaiting := awaiting s3 @ [UpdateBufferCall u hist pendingBlocks] \<rparr>)"

definition triggerUpdateBuffer_resume :: "userId \<Rightarrow> string + block list \<Rightarrow> server \<Rightarrow> server" where
  "triggerUpdateBuffer_resume u result s =
     (case result of
        Inr newBlocks \<Rightarrow>
          let s1 = setBuffer u newBlocks s;
              s2 = setUpdateCheckNeeded u False s1;
              s3 = setWaitingForGroup u False s2
          in (case getSocket u s3 of
                Some sk \<Rightarrow> startSendingBuffer u (Some sk) True True s3
              | None \<Rightarrow> s3)
      | Inl msg \<Rightarrow>
          (case getSocket u s of
             Some sk \<Rightarrow> emit sk (ErrorEvent ''Failed to generate response'' msg) s
           | None \<Rightarrow> s))"

text \<open>\<open>triggerUpdateCheck\<close>, split in the same way at the call of
  \<open>geminiService.updateCheck\<close> (which answers false on any error).\<close>

definition triggerUpdateCheck :: "userId \<Rightarrow> server \<Rightarrow> server" where
  "triggerUpdateCheck u s =
     (let recentHistory = getHistory u (Some 20) s;
          s1 = getSession u s;
          b = buffer (theSession s1 u)
      in s1\<lparr> awaiting := awaiting s1
                @ [UpdateCheckCall u recentHistory (blocks b) (currentIndex b)] \<rparr>)"

definition triggerUpdateCheck_resume :: "userId \<Rightarrow> bool \<Rightarrow> server \<Rightarrow> server" where
  "triggerUpdateCheck_resume u answer s =
     (if answer then
        let s1 = setUpdateCheckNeeded u True s in
        if isCurrentGroupComplete u s1
        then startGroupDelayFlow u (stopSending u s1)
        else setWaitingForGroup u True s1
      else setUpdateCheckNeeded u False s)"

definition handleUserMessage :: "userId \<Rightarrow> string \<Rightarrow> sockRef \<Rightarrow> server \<Rightarrow> server" where
  "handleUserMessage u message sk s =
     (let s1 = registerSocket u sk s;
          s2 = addUserMessage u message s1;
          s3 = setUserMessagedSinceEndUpdate u True s2;
          s4 = cancelTypingTimers u s3;
          s5 = setTypingState u False s4;
          s6 = disableIdleTimer u s5;
          s7 = cancelEndUpdateTimer u s6;
          s8 = setEndUpdateTimer u False s7
      in if isSending u s8 \<and> \<not> isBufferComplete u s8
         then triggerUpdateCheck u s8
         else triggerUpdateBuffer u s8)"

definition handleTypingStatus :: "userId \<Rightarrow> bool \<Rightarrow> sockRef \<Rightarrow> server \<Rightarrow> server" where
  "handleTypingStatus u typingNow sk s =
     (let s1 = registerSocket u sk s;
          s2 = setTypingState u typingNow s1
      in if typingNow then
           let s3 = cancelTypingTimers u s2;
               s4 = cancelGroupDelayTimer u s3;
               s5 = (if timerActive (getEndUpdateState u s4)
                     then enableIdleTimer u
                            (setEndUpdateTimer u False (cancelEndUpdateTimer u s4))
                     else s4)
           in startMaxTypingTimer u MaxTypingExpired s5
         else
           let s3 = cancelTypingTimers u s2 in
           if shouldUseIdleTimer (getTypingState u s3)
           then startTypingIdleTimer u TypingIdleExpired s3
           else s3)"

definition stopAIResponse :: "userId \<Rightarrow> sockRef option \<Rightarrow> server \<Rightarrow> server" where
  "stopAIResponse u socket s =
     (let s1 = cancelAllTimers u s;
          s2 = stopSending u s1;
          s3 = markBufferComplete u s2
      in case socket of None \<Rightarrow> s3 | Some sk \<Rightarrow> emit sk AiComplete s3)"

definition cleanup :: "userId \<Rightarrow> server \<Rightarrow> server" where
  "cleanup u s =
     (let s1 = timerCleanup u s;
          s2 = bufferCleanup u s1;
          s3 = clearSession u s2
      in s3\<lparr> userSockets := (userSockets s3)(u := None) \<rparr>)"

text \<open>The bodies of the timer callbacks, up to their first \<open>await\<close>.\<close>

fun runCallback :: "timerCallback \<Rightarrow> userId \<Rightarrow> server \<Rightarrow> server" where
  "runCallback MaxTypingExpired u s =
     triggerUpdateBuffer u (setUserMessagedSinceEndUpdate u False s)"
| "runCallback TypingIdleExpired u s =
     triggerUpdateBuffer u (setUserMessagedSinceEndUpdate u False (disableIdleTimer u s))"
| "runCallback GroupDelayExpired u s =
     (let s1 = getSession u s in
      if isTyping (getTypingState u s1) then enableIdleTimer u s1
      else startTypingIdleTimer u IdleAfterGroupDelayExpired s1)"
| "runCallback IdleAfterGroupDelayExpired u s =
     triggerUpdateBuffer u (setUserMessagedSinceEndUpdate u False s)"
| "runCallback EndUpdateExpired u s =
     triggerUpdateBuffer u (setUserMessagedSinceEndUpdate u False s)"

text \<open>
  What runs when a scheduled timeout fires.  The wrapper of \<open>_setTimer\<close> deletes the
  timer's entry from the user's timer object and then invokes the callback;
  \<open>timerFired\<close> is the state in which the callback starts.  The wrapper holds the timer
  object it was created with; \<open>cleanup\<close> cancels every timer of the user before it drops
  that object, so when a wrapper fires its object is the one on record, and the deletion is
  written on the record.
\<close>

definition timerFired :: "userId \<Rightarrow> timerType \<Rightarrow> server \<Rightarrow> server" where
  "timerFired u t s = s\<lparr> timers := (timers s)(u \<mapsto> (userTimersOf s u)(t := None)) \<rparr>"

fun runClosure :: "closure \<Rightarrow> server \<Rightarrow> server" where
  "runClosure (TimerFire u t cb) s = runCallback cb u (timerFired u t s)"
| "runClosure (PacerStep u socket onGroupComplete onBufferComplete) s =
     sendNextBlock u socket onGroupComplete onBufferComplete s"

definition fireTimeout :: "timeoutId \<Rightarrow> server \<Rightarrow> server" where
  "fireTimeout i s =
     (case scheduled s i of
        None \<Rightarrow> s
      | Some (delay, c) \<Rightarrow> runClosure c (s\<lparr> scheduled := (scheduled s)(i := None) \<rparr>))"

section \<open>GeminiService.updateCheck: the prompt\<close>

text \<open>\<open>Array.prototype.join\<close>.\<close>

fun join :: "string \<Rightarrow> string list \<Rightarrow> string" where
  "join sep [] = []"
| "join sep [x] = x"
| "join sep (x # y # ys) = x @ sep @ join sep (y # ys)"

definition sentBlocks :: "block list \<Rightarrow> nat \<Rightarrow> block list" where
  "sentBlocks currentBuffer idx = (if length currentBuffer > 0 then take idx currentBuffer else [])"

definition pendingBlocks :: "block list \<Rightarrow> nat \<Rightarrow> block list" where
  "pendingBlocks currentBuffer idx = (if length currentBuffer > 0 then drop idx currentBuffer else [])"

definition blocksText :: "block list \<Rightarrow> string" where
  "blocksText bs = (if length bs > 0 then join [CHR 0x0A] (map blockText bs) else ''None'')"

definition userMessages :: "historyEntry list \<Rightarrow> string list" where
  "userMessages recentHistory = map content (filter (\<lambda>msg. role msg = ''user'') recentHistory)"

definition userMessagesText :: "historyEntry list \<Rightarrow> string" where
  "userMessagesText recentHistory = join [CHR 0x0A] (userMessages recentHistory)"

definition checkPrompt :: "string \<Rightarrow> historyEntry list \<Rightarrow> block list \<Rightarrow> nat \<Rightarrow> string" where
  "checkPrompt evaluatorPrompt recentHistory currentBuffer idx =
     evaluatorPrompt
     @ [CHR 0x0A, CHR 0x0A] @ ''SENT BLOCKS:'' @ [CHR 0x0A]
     @ blocksText (sentBlocks currentBuffer idx)
     @ [CHR 0x0A, CHR 0x0A] @ ''PENDING BLOCKS:'' @ [CHR 0x0A]
     @ blocksText (pendingBlocks currentBuffer idx)
     @ [CHR 0x0A, CHR 0x0A] @ ''USER MESSAGES:'' @ [CHR 0x0A]
     @ userMessagesText recentHistory"

section \<open>The server as a transition system\<close>

text \<open>
  The events of \<open>index.js\<close> (a connection, the five client events), a scheduled timeout
  firing, and a pending call to the language model returning.  Client events arrive only
  on a connected socket.
\<close>

datatype event =
    Connect userId sockRef
  | UserMessage userId string sockRef
  | TypingStatus userId bool sockRef
  | StopAiResponse userId sockRef
  | EndChat userId sockRef
  | Disconnect userId sockRef
  | Timeout timeoutId
  | CheckReturns nat bool
  | BufferReturns nat "string + block list"

definition dropCall :: "nat \<Rightarrow> server \<Rightarrow> server" where
  "dropCall n s = s\<lparr> awaiting := take n (awaiting s) @ drop (Suc n) (awaiting s) \<rparr>"

fun step :: "event \<Rightarrow> server \<Rightarrow> server" where
  "step (Connect u sk) s =
     registerSocket u sk (s\<lparr> connected := (connected s)(sk := True) \<rparr>)"
| "step (UserMessage u m sk) s =
     (if connected s sk then handleUserMessage u m sk (emit sk (MessageReceived m) s) else s)"
| "step (TypingStatus u b sk) s =
     (if connected s sk then handleTypingStatus u b sk s else s)"
| "step (StopAiResponse u sk) s =
     (if connected s sk then stopAIResponse u (Some sk) s else s)"
| "step (EndChat u sk) s =
     (if connected s sk then cleanup u (stopAIResponse u (Some sk) s) else s)"
| "step (Disconnect u sk) s =
     (if connected s sk then cleanup u (s\<lparr> connected := (connected s)(sk := False) \<rparr>) else s)"
| "step (Timeout i) s = fireTimeout i s"
| "step (CheckReturns n answer) s =
     (if n < length (awaiting s) then
        (case awaiting s ! n of
           UpdateCheckCall u h bs i \<Rightarrow> triggerUpdateCheck_resume u answer (dropCall n s)
         | UpdateBufferCall u h bs \<Rightarrow> s)
      else s)"
| "step (BufferReturns n result) s =
     (if n < length (awaiting s) then
        (case awaiting s ! n of
           UpdateBufferCall u h bs \<Rightarrow> triggerUpdateBuffer_resume u result (dropCall n s)
         | UpdateCheckCall u h bs i \<Rightarrow> s)
      else s)"

definition run :: "event list \<Rightarrow> server \<Rightarrow> server" where
  "run es s = foldl (\<lambda>s e. step e s) s es"

inductive reachable :: "server \<Rightarrow> bool" where
  reachable_init: "reachable initialServer"
| reachable_step: "reachable s \<Longrightarrow> reachable (step e s)"

section \<open>Observations and invariants used in the statements\<close>

text \<open>The delay of the pacer step recorded for a user in \<open>sendingTimeouts\<close>.\<close>

definition scheduledStepDelay :: "userId \<Rightarrow> server \<Rightarrow> rat option" where
  "scheduledStepDelay u s =
     (case sendingTimeouts s u of None \<Rightarrow> None | Some i \<Rightarrow> map_option fst (scheduled s i))"

text \<open>Between \<open>s\<close> and \<open>s'\<close> a timeout was handed out that holds the wrapper of timer
  \<open>t\<close> of user \<open>u\<close>, and it is still scheduled in \<open>s'\<close>.\<close>

definition timerStarted :: "timerType \<Rightarrow> userId \<Rightarrow> server \<Rightarrow> server \<Rightarrow> bool" where
  "timerStarted t u s s' =
     list_ex (\<lambda>i. case scheduled s' i of
                    Some (d, TimerFire v t' cb) \<Rightarrow> v = u \<and> t' = t
                  | _ \<Rightarrow> False)
             [nextTimeoutId s ..< nextTimeoutId s']"

text \<open>The timer name under which the orchestrator registers each callback.\<close>

definition wellPaired :: "timerType \<Rightarrow> timerCallback \<Rightarrow> bool" where
  "wellPaired t cb =
     (case cb of
        MaxTypingExpired \<Rightarrow> t = MaxTyping
      | TypingIdleExpired \<Rightarrow> t = TypingIdle
      | GroupDelayExpired \<Rightarrow> t = GroupDelay
      | IdleAfterGroupDelayExpired \<Rightarrow> t = TypingIdle
      | EndUpdateExpired \<Rightarrow> t = EndUpdate)"

text \<open>A scheduled closure is the one its manager has on record.\<close>

fun stored :: "server \<Rightarrow> timeoutId \<Rightarrow> closure \<Rightarrow> bool" where
  "stored s i (TimerFire u t cb) = (userTimersOf s u t = Some i \<and> wellPaired t cb)"
| "stored s i (PacerStep u sk g b) = (sendingTimeouts s u = Some i)"

definition schedInv :: "server \<Rightarrow> bool" where
  "schedInv s = (\<forall>i d c. scheduled s i = Some (d, c) \<longrightarrow> i < nextTimeoutId s \<and> stored s i c)"

definition noChain :: "userId \<Rightarrow> server \<Rightarrow> bool" where
  "noChain u s = (\<forall>i d sk g b. scheduled s i \<noteq> Some (d, PacerStep u sk g b))"

text \<open>A timeout id that has been handed out and is no longer scheduled.\<close>

definition retired :: "timeoutId \<Rightarrow> server \<Rightarrow> bool" where
  "retired i s = (scheduled s i = None \<and> i < nextTimeoutId s)"

text \<open>While an end-update timer is on record for a user, the user has sent a message
  since the last end update.\<close>

definition gateInv :: "server \<Rightarrow> bool" where
  "gateInv s = (\<forall>u. userTimersOf s u EndUpdate \<noteq> None \<longrightarrow> hasUserMessagedSinceEndUpdate u s)"

text \<open>What the pacer reads of a user's session: the update check flags, the blocks and the
  cursor.\<close>

definition pacerView :: "server \<Rightarrow> userId \<Rightarrow> updateCheckState \<times> block list \<times> nat" where
  "pacerView s u = (updateCheck (theSession s u), blocks (buffer (theSession s u)),
                    currentIndex (buffer (theSession s u)))"

text \<open>The event returns a relevance check that was made for user \<open>u\<close>.\<close>

definition returnsCheckOf :: "userId \<Rightarrow> event \<Rightarrow> server \<Rightarrow> bool" where
  "returnsCheckOf u e s =
     (case e of
        CheckReturns n answer \<Rightarrow>
          n < length (awaiting s)
          \<and> (case awaiting s ! n of
                 UpdateCheckCall v h bs i \<Rightarrow> v = u
               | UpdateBufferCall v h bs \<Rightarrow> False)
      | _ \<Rightarrow> False)"

text \<open>The event returns the blocks of a generation that was started for user \<open>u\<close>; they are
  installed as the user's new buffer.\<close>

definition installsBufferOf :: "userId \<Rightarrow> event \<Rightarrow> server \<Rightarrow> bool" where
  "installsBufferOf u e s =
     (case e of
        BufferReturns n result \<Rightarrow>
          (case result of
             Inl msg \<Rightarrow> False
           | Inr newBlocks \<Rightarrow>
               n < length (awaiting s)
               \<and> (case awaiting s ! n of
                      UpdateBufferCall v h bs \<Rightarrow> v = u
                    | UpdateCheckCall v h bs i \<Rightarrow> False))
      | _ \<Rightarrow> False)"

text \<open>The event fires a scheduled emission step of the pacer for user \<open>u\<close>.\<close>

definition firesStepOf :: "userId \<Rightarrow> event \<Rightarrow> server \<Rightarrow> bool" where
  "firesStepOf u e s =
     (case e of
        Timeout i \<Rightarrow>
          (case scheduled s i of
             Some (d, PacerStep v socket g b) \<Rightarrow> v = u
           | _ \<Rightarrow> False)
      | _ \<Rightarrow> False)"

text \<open>A property of every step of a run: \<open>P e s\<close> holds for each event \<open>e\<close> of the run and the
  state \<open>s\<close> in which it arrives.\<close>

fun alongRun :: "(event \<Rightarrow> server \<Rightarrow> bool) \<Rightarrow> event list \<Rightarrow> server \<Rightarrow> bool" where
  "alongRun P [] s = True"
| "alongRun P (e # es) s = (P e s \<and> alongRun P es (step e s))"

section \<open>Example inputs\<close>

definition blockA :: block where
  "blockA = \<lparr> blockText = ''a'', typingTime = Finite 1, blockGroup = 1 \<rparr>"

definition blockB :: block where
  "blockB = \<lparr> blockText = ''b'', typingTime = Finite (1 / 2), blockGroup = 1 \<rparr>"

definition blockC :: block where
  "blockC = \<lparr> blockText = ''c'', typingTime = Finite 1, blockGroup = 2 \<rparr>"

text \<open>A user says hi and the first block of a three-block answer is sent.\<close>

definition sendingTrace :: "event list" where
  "sendingTrace =
     [Connect ''u'' 7, UserMessage ''u'' ''hi'' 7, BufferReturns 0 (Inr [blockA, blockB, blockC])]"

text \<open>The user then sends a second message, the relevance check answers yes while group 1
  is still being sent, and the pacer sends the last block of group 1.\<close>

definition interruptTrace :: "event list" where
  "interruptTrace =
     sendingTrace @ [UserMessage ''u'' ''wait'' 7, CheckReturns 0 True, Timeout 0]"

text \<open>The state reached by \<open>sendingTrace\<close>: block a is sent, timeout 0 holds the next step.\<close>

definition sendingServer :: server where
  "sendingServer =
     \<lparr>sessions =
        [''u'' \<mapsto>
         \<lparr>history =
            [\<lparr>role = ''user'', content = ''hi''\<rparr>,
             \<lparr>role = ''model'', content = ''a''\<rparr>],
            buffer =
              \<lparr>blocks =
                 [\<lparr>blockText = ''a'', typingTime = Finite 1, blockGroup = 1\<rparr>,
                  \<lparr>blockText = ''b'', typingTime = Finite (1 / 2), blockGroup = 1\<rparr>,
                  \<lparr>blockText = ''c'', typingTime = Finite 1, blockGroup = 2\<rparr>],
                 currentIndex = Suc 0, currentGroup = Some 1, isComplete = False,
                 isPaused = False\<rparr>,
            typing = \<lparr>isTyping = False, shouldUseIdleTimer = False\<rparr>,
            updateCheck = \<lparr>needsUpdate = False, waitingForGroup = False\<rparr>,
            endUpdate =
              \<lparr>timerActive = False, userMessagedSinceLastEndUpdate = True\<rparr>\<rparr>],
        timers = [''u'' \<mapsto> \<lambda>x. None], sendingTimeouts = [''u'' \<mapsto> 0],
        bufferSockets = [''u'' \<mapsto> 7], userSockets = [''u'' \<mapsto> 7],
        connected = (\<lambda>_. False)(7 := True),
        scheduled = [0 \<mapsto> (1000, PacerStep ''u'' (Some 7) True True)],
        nextTimeoutId = Suc 0, awaiting = [],
        emitted = [(7, MessageReceived ''hi''), (7, AiBlock ''a'' 1)],
        calls = []\<rparr>"

text \<open>The state reached by \<open>interruptTrace\<close>: group 1 is sent, the orchestrator has cleared
  \<open>waitingForGroup\<close> and armed the group delay (timeout 1), and timeout 2 holds the next
  pacer step.\<close>

definition committedServer :: server where
  "committedServer =
     \<lparr>sessions =
        [''u'' \<mapsto>
         \<lparr>history =
            [\<lparr>role = ''user'', content = ''hi''\<rparr>,
             \<lparr>role = ''model'', content = ''a''\<rparr>,
             \<lparr>role = ''user'', content = ''wait''\<rparr>,
             \<lparr>role = ''model'', content = ''b''\<rparr>],
            buffer =
              \<lparr>blocks =
                 [\<lparr>blockText = ''a'', typingTime = Finite 1, blockGroup = 1\<rparr>,
                  \<lparr>blockText = ''b'', typingTime = Finite (1 / 2), blockGroup = 1\<rparr>,
                  \<lparr>blockText = ''c'', typingTime = Finite 1, blockGroup = 2\<rparr>],
                 currentIndex = Suc (Suc 0), currentGroup = Some 2,
                 isComplete = False, isPaused = False\<rparr>,
            typing = \<lparr>isTyping = False, shouldUseIdleTimer = False\<rparr>,
            updateCheck = \<lparr>needsUpdate = True, waitingForGroup = False\<rparr>,
            endUpdate =
              \<lparr>timerActive = False, userMessagedSinceLastEndUpdate = True\<rparr>\<rparr>],
        timers = [''u'' \<mapsto> [GroupDelay \<mapsto> Suc 0]],
        sendingTimeouts = [''u'' \<mapsto> Suc (Suc 0)], bufferSockets = [''u'' \<mapsto> 7],
        userSockets = [''u'' \<mapsto> 7], connected = (\<lambda>_. False)(7 := True),
        scheduled =
          [Suc 0 \<mapsto> (2000, TimerFire ''u'' GroupDelay GroupDelayExpired),
           Suc (Suc 0) \<mapsto> (1000, PacerStep ''u'' (Some 7) True True)],
        nextTimeoutId = Suc (Suc (Suc 0)), awaiting = [],
        emitted =
          [(7, MessageReceived ''hi''), (7, AiBlock ''a'' 1),
           (7, MessageReceived ''wait''), (7, AiBlock ''b'' 1)],
        calls = [GroupCompleteCall ''u'' (Some 1)]\<rparr>"

definition typingTrace :: "event list" where
  "typingTrace = [Connect ''u'' 7, TypingStatus ''u'' True 7]"

text \<open>The user disconnects while the first generation is pending.\<close>

definition disconnectTrace :: "event list" where
  "disconnectTrace = [Connect ''u'' 7, UserMessage ''u'' ''hi'' 7, Disconnect ''u'' 7]"

text \<open>The first generation fails.\<close>

definition failureTrace :: "event list" where
  "failureTrace =
     [Connect ''u'' 7, UserMessage ''u'' ''hi'' 7, BufferReturns 0 (Inl ''overloaded'')]"

text \<open>The first generation returns no block, so the buffer completes at once.\<close>

definition completedTrace :: "event list" where
  "completedTrace = [Connect ''u'' 7, UserMessage ''u'' ''hi'' 7, BufferReturns 0 (Inr [])]"

text \<open>Two generations overlap: the second returns three blocks, then the first fails.\<close>

definition overlapTrace :: "event list" where
  "overlapTrace =
     [Connect ''u'' 7, UserMessage ''u'' ''hi'' 7, UserMessage ''u'' ''again'' 7,
      BufferReturns 1 (Inr [blockA, blockB, blockC]), BufferReturns 0 (Inl ''overloaded'')]"


text \<open>An answer whose first block has a typing time of 3000000 seconds.\<close>

definition slowBlock :: block where
  "slowBlock = \<lparr> blockText = ''z'', typingTime = Finite 3000000, blockGroup = 1 \<rparr>"

definition slowTrace :: "event list" where
  "slowTrace =
     [Connect ''u'' 7, UserMessage ''u'' ''hi'' 7, BufferReturns 0 (Inr [slowBlock, blockC])]"



section \<open>Rounding to a double\<close>

lemma bitLength_numeral [simp]:
  "bitLength 0 = 0"
  "bitLength 1 = 1"
  "bitLength (numeral (Num.Bit0 k)) = Suc (bitLength (numeral k))"
  "bitLength (numeral (Num.Bit1 k)) = Suc (bitLength (numeral k))"
  "bitLength (- numeral k) = 0"
  by (subst bitLength.simps, simp)+

lemma bitLength_pos: "0 < n \<Longrightarrow> 0 < bitLength n"
  by (subst bitLength.simps) simp

lemma bitLength_bounds:
  "0 < n \<Longrightarrow> 2 ^ (bitLength n - 1) \<le> n \<and> n < 2 ^ bitLength n"
proof (induction n rule: bitLength.induct)
  case (1 n)
  have bl: "bitLength n = Suc (bitLength (n div 2))"
    using "1.prems" by (subst bitLength.simps) simp
  show ?case
  proof (cases "n div 2 \<le> 0")
    case True
    with "1.prems" have "n = 1" by linarith
    then show ?thesis by simp
  next
    case False
    then have pos: "0 < n div 2" by simp
    with "1.IH" "1.prems" have IH: "2 ^ (bitLength (n div 2) - 1) \<le> n div 2"
      "n div 2 < 2 ^ bitLength (n div 2)" by simp_all
    have nz: "bitLength (n div 2) = Suc (bitLength (n div 2) - 1)"
      using bitLength_pos[OF pos] by simp
    have "(2::int) ^ bitLength (n div 2) = 2 * 2 ^ (bitLength (n div 2) - 1)"
      by (subst nz) simp
    also have "\<dots> \<le> 2 * (n div 2)" using IH(1) by simp
    also have "\<dots> \<le> n" by presburger
    finally have lo: "2 ^ (bitLength n - 1) \<le> n" by (simp add: bl)
    have "n < 2 * (n div 2 + 1)" by presburger
    also have "\<dots> \<le> 2 * 2 ^ bitLength (n div 2)" using IH(2) by simp
    finally have "n < 2 ^ bitLength n" by (simp add: bl)
    with lo show ?thesis by simp
  qed
qed

lemma binaryExponent_bounds:
  assumes "0 < a"
  shows "2 powi binaryExponent a \<le> a" and "a < 2 powi (binaryExponent a + 1)"
proof -
  have "2 powi binaryExponent a \<le> a \<and> a < 2 powi (binaryExponent a + 1)"
  proof (cases "1 \<le> a")
    case True
    then have fl: "0 < \<lfloor>a\<rfloor>" by simp
    let ?k = "bitLength \<lfloor>a\<rfloor>"
    from bitLength_bounds[OF fl] have b: "2 ^ (?k - 1) \<le> \<lfloor>a\<rfloor>" "\<lfloor>a\<rfloor> < 2 ^ ?k" by simp_all
    have kp: "0 < ?k" using fl by (rule bitLength_pos)
    have e: "binaryExponent a = int (?k - 1)" using True kp by (simp add: binaryExponent_def)
    have "(2::rat) ^ (?k - 1) = of_int (2 ^ (?k - 1))" by simp
    also have "\<dots> \<le> of_int \<lfloor>a\<rfloor>" using b(1) by (simp only: of_int_le_iff)
    also have "\<dots> \<le> a" by simp
    finally have lo: "(2::rat) ^ (?k - 1) \<le> a" .
    have "\<lfloor>a\<rfloor> + 1 \<le> 2 ^ ?k" using b(2) by simp
    then have "of_int (\<lfloor>a\<rfloor> + 1) \<le> (of_int (2 ^ ?k) :: rat)" by (simp only: of_int_le_iff)
    moreover have "a < of_int (\<lfloor>a\<rfloor> + 1)" by linarith
    ultimately have hi: "a < 2 ^ ?k" by simp
    have e1: "binaryExponent a + 1 = int ?k" using kp by (simp add: e)
    show ?thesis unfolding e1 unfolding e power_int_of_nat using lo hi by simp
  next
    case False
    with assms have a1: "a < 1" by simp
    let ?n = "\<lceil>1 / a\<rceil> - 1"
    let ?k = "bitLength ?n"
    have inv: "1 < 1 / a" using assms a1 by simp
    then have np: "0 < ?n" by linarith
    from bitLength_bounds[OF np] have b: "2 ^ (?k - 1) \<le> ?n" "?n < 2 ^ ?k" by simp_all
    have kp: "0 < ?k" using np by (rule bitLength_pos)
    have e: "binaryExponent a = - int ?k" using False by (simp add: binaryExponent_def)
    have "of_int ?n < 1 / a" by linarith
    moreover have "(2::rat) ^ (?k - 1) \<le> of_int ?n"
    proof -
      have "(2::rat) ^ (?k - 1) = of_int (2 ^ (?k - 1))" by simp
      also have "\<dots> \<le> of_int ?n" using b(1) by (simp only: of_int_le_iff)
      finally show ?thesis .
    qed
    ultimately have u: "(2::rat) ^ (?k - 1) < 1 / a" by simp
    have "\<lceil>1 / a\<rceil> \<le> 2 ^ ?k" using b(2) by simp
    then have "1 / a \<le> of_int (2 ^ ?k)" by (simp only: ceiling_le_iff)
    then have l: "1 / a \<le> 2 ^ ?k" by simp
    have lo: "1 / 2 ^ ?k \<le> a"
      using l assms by (simp add: field_simps)
    have hi: "a < 1 / 2 ^ (?k - 1)"
      using u assms by (simp add: field_simps)
    have k1: "binaryExponent a + 1 = - int (?k - 1)" using kp by (simp add: e)
    show ?thesis
      unfolding k1 unfolding e power_int_minus power_int_of_nat
      using lo hi by (simp add: field_simps)
  qed
  then show "2 powi binaryExponent a \<le> a" and "a < 2 powi (binaryExponent a + 1)" by simp_all
qed

lemma roundHalfEven_near: "\<bar>of_int (roundHalfEven x) - x\<bar> \<le> 1 / 2"
  unfolding roundHalfEven_def Let_def by (auto simp: abs_if; linarith)

lemma roundHalfEven_le: "x \<le> of_int N \<Longrightarrow> roundHalfEven x \<le> N"
  unfolding roundHalfEven_def Let_def
  by (auto simp: le_floor_iff floor_le_iff; linarith)

lemma roundHalfEven_ge: "of_int N \<le> x \<Longrightarrow> N \<le> roundHalfEven x"
  unfolding roundHalfEven_def Let_def
  by (auto simp: le_floor_iff; linarith)

lemma two_powi_less_imp: "(2::rat) powi m < 2 powi n \<Longrightarrow> m < n"
  using power_int_increasing[of n m "2::rat"] by (cases "m < n") auto

text \<open>The rounded value of a positive number, before the overflow test.\<close>

lemma roundDouble_pos:
  assumes "0 < x"
  shows "roundDouble x =
     (let q = max (binaryExponent x - 52) (- 1074);
          y = of_int (roundHalfEven (x / 2 powi q)) * 2 powi q
      in if 2 ^ 1024 \<le> y then PosInfinity else Finite y)"
  using assms by (simp add: roundDouble_def Let_def)

lemma roundDouble_nonpos:
  assumes "x \<le> 0"
  shows "roundDouble x = NegInfinity \<or> (\<exists>y. roundDouble x = Finite y \<and> y \<le> 0)"
proof (cases "x = 0")
  case True
  then show ?thesis by (simp add: roundDouble_def)
next
  case False
  with assms have neg: "x < 0" by simp
  let ?q = "max (binaryExponent \<bar>x\<bar> - 52) (- 1074)"
  have "0 \<le> \<bar>x\<bar> / 2 powi ?q" by simp
  then have "0 \<le> roundHalfEven (\<bar>x\<bar> / 2 powi ?q)"
    using roundHalfEven_ge[of 0] by simp
  then have "0 \<le> (of_int (roundHalfEven (\<bar>x\<bar> / 2 powi ?q)) :: rat) * 2 powi ?q" by simp
  with neg show ?thesis by (simp add: roundDouble_def Let_def)
qed

lemma roundDouble_le_int:
  assumes pos: "0 < x" and le: "x \<le> of_int G" and small: "G < 2 ^ 53"
  shows "\<exists>y. roundDouble x = Finite y \<and> 0 \<le> y \<and> y \<le> of_int G"
proof -
  let ?e = "binaryExponent x"
  let ?q = "max (?e - 52) (- 1074)"
  have "2 powi ?e \<le> x" using pos by (rule binaryExponent_bounds)
  also have "x \<le> of_int G" by fact
  also have "(of_int G :: rat) < of_int (2 ^ 53)" using small by (simp only: of_int_less_iff)
  finally have "(2::rat) powi ?e < 2 powi 53" by simp
  then have "?e < 53" by (rule two_powi_less_imp)
  then have q0: "?q \<le> 0" by simp
  define k where "k = nat (- ?q)"
  have pq: "(2::rat) powi ?q = 1 / 2 ^ k"
    using q0 by (simp add: k_def power_int_def field_simps)
  have "x / 2 powi ?q = x * 2 ^ k" by (simp add: pq)
  also have "\<dots> \<le> of_int G * 2 ^ k" using le by simp
  also have "\<dots> = of_int (G * 2 ^ k)" by simp
  finally have "roundHalfEven (x / 2 powi ?q) \<le> G * 2 ^ k" by (rule roundHalfEven_le)
  then have "(of_int (roundHalfEven (x / 2 powi ?q)) :: rat) \<le> of_int (G * 2 ^ k)"
    by (simp only: of_int_le_iff)
  then have up: "of_int (roundHalfEven (x / 2 powi ?q)) * 2 powi ?q \<le> (of_int G :: rat)"
    by (simp add: pq field_simps)
  have "0 \<le> x / 2 powi ?q" using pos by simp
  then have "0 \<le> roundHalfEven (x / 2 powi ?q)" using roundHalfEven_ge[of 0] by simp
  then have lo: "0 \<le> (of_int (roundHalfEven (x / 2 powi ?q)) :: rat) * 2 powi ?q" by simp
  have "(of_int G :: rat) < 2 ^ 1024"
  proof -
    have "(of_int G :: rat) < of_int (2 ^ 53)" using small by (simp only: of_int_less_iff)
    also have "\<dots> < 2 ^ 1024" by simp
    finally show ?thesis .
  qed
  with up have "\<not> (2 ^ 1024 :: rat) \<le> of_int (roundHalfEven (x / 2 powi ?q)) * 2 powi ?q" by simp
  with up lo show ?thesis by (simp add: roundDouble_pos[OF pos] Let_def)
qed

lemma roundDouble_ge_int:
  assumes gpos: "0 < G" and ge: "of_int G \<le> x" and small: "x < 2 ^ 53"
  shows "\<exists>y. roundDouble x = Finite y \<and> of_int G \<le> y"
proof -
  have pos: "0 < x" using gpos ge by (smt (verit) of_int_pos order_less_le_trans)
  let ?e = "binaryExponent x"
  let ?q = "max (?e - 52) (- 1074)"
  have "2 powi ?e \<le> x" using pos by (rule binaryExponent_bounds)
  also have "x < 2 powi 53" using small by simp
  finally have "?e < 53" by (rule two_powi_less_imp)
  then have q0: "?q \<le> 0" by simp
  define k where "k = nat (- ?q)"
  have pq: "(2::rat) powi ?q = 1 / 2 ^ k"
    using q0 by (simp add: k_def power_int_def field_simps)
  have "(of_int (G * 2 ^ k) :: rat) = of_int G * 2 ^ k" by simp
  also have "\<dots> \<le> x * 2 ^ k" using ge by simp
  also have "\<dots> = x / 2 powi ?q" by (simp add: pq)
  finally have "G * 2 ^ k \<le> roundHalfEven (x / 2 powi ?q)" by (rule roundHalfEven_ge)
  then have "(of_int (G * 2 ^ k) :: rat) \<le> of_int (roundHalfEven (x / 2 powi ?q))"
    by (simp only: of_int_le_iff)
  then have lo: "(of_int G :: rat) \<le> of_int (roundHalfEven (x / 2 powi ?q)) * 2 powi ?q"
    by (simp add: pq field_simps)
  have "x / 2 powi ?q \<le> of_int (2 ^ 53 * 2 ^ k)" using small by (simp add: pq)
  then have "roundHalfEven (x / 2 powi ?q) \<le> 2 ^ 53 * 2 ^ k" by (rule roundHalfEven_le)
  then have "(of_int (roundHalfEven (x / 2 powi ?q)) :: rat) \<le> of_int (2 ^ 53 * 2 ^ k)"
    by (simp only: of_int_le_iff)
  then have "of_int (roundHalfEven (x / 2 powi ?q)) * 2 powi ?q \<le> (2 ^ 53 :: rat)"
    by (simp add: pq field_simps)
  also have "(2 ^ 53 :: rat) < 2 ^ 1024" by simp
  finally have "\<not> (2 ^ 1024 :: rat) \<le> of_int (roundHalfEven (x / 2 powi ?q)) * 2 powi ?q" by simp
  with lo show ?thesis by (simp add: roundDouble_pos[OF pos] Let_def)
qed

text \<open>Above the subnormal range the rounded value is within half a unit in the last place,
  which is at most \<open>x / 2 ^ 53\<close>, and it is not below the power of two under \<open>x\<close>.\<close>

lemma roundDouble_error:
  assumes big: "1 \<le> x" and fin: "roundDouble x = Finite y"
  shows "\<bar>y - x\<bar> \<le> x / 2 ^ 53" and "2 powi binaryExponent x \<le> y"
proof -
  have pos: "0 < x" using big by simp
  let ?e = "binaryExponent x"
  have b: "2 powi ?e \<le> x" "x < 2 powi (?e + 1)" using pos by (rule binaryExponent_bounds)+
  have "(2::rat) powi 0 \<le> x" using big by simp
  also note b(2)
  finally have "0 < ?e + 1" by (rule two_powi_less_imp)
  then have e0: "0 \<le> ?e" by simp
  then have q: "max (?e - 52) (- 1074) = ?e - 52" by simp
  let ?u = "(2::rat) powi (?e - 52)"
  let ?m = "x / ?u"
  have up: "0 < ?u" by simp
  have y: "y = of_int (roundHalfEven ?m) * ?u"
    using fin unfolding roundDouble_pos[OF pos] Let_def q by (simp split: if_splits)
  have "y - x = (of_int (roundHalfEven ?m) - ?m) * ?u"
    using up by (simp add: y left_diff_distrib)
  then have "\<bar>y - x\<bar> = \<bar>of_int (roundHalfEven ?m) - ?m\<bar> * ?u"
    using up by (simp add: abs_mult)
  also have "\<dots> \<le> 1 / 2 * ?u"
    using roundHalfEven_near[of ?m] up by (intro mult_right_mono) simp_all
  also have "\<dots> = 2 powi ?e / 2 ^ 53"
    by (simp add: power_int_diff)
  also have "\<dots> \<le> x / 2 ^ 53" using b(1) by (simp add: divide_right_mono)
  finally show "\<bar>y - x\<bar> \<le> x / 2 ^ 53" .
  have "of_int (2 ^ 52) = (2::rat) powi ?e / ?u" by (simp add: power_int_diff)
  also have "\<dots> \<le> ?m" using b(1) up by (simp add: divide_right_mono)
  finally have "2 ^ 52 \<le> roundHalfEven ?m" by (rule roundHalfEven_ge)
  then have r: "(of_int (2 ^ 52) :: rat) \<le> of_int (roundHalfEven ?m)" by (simp only: of_int_le_iff)
  have "2 powi ?e = of_int (2 ^ 52) * ?u" by (simp add: power_int_diff)
  also have "\<dots> \<le> of_int (roundHalfEven ?m) * ?u"
    using r up by (intro mult_right_mono) (assumption, simp)
  finally show "2 powi ?e \<le> y" unfolding y .
qed

text \<open>Evaluating the rounding of a given number.\<close>

lemma floor_rat_numeral:
  "\<lfloor>numeral a / numeral b :: rat\<rfloor> = numeral a div numeral b"
  "\<lfloor>1 / numeral b :: rat\<rfloor> = 1 div numeral b"
  using floor_divide_of_int_eq[of "numeral a" "numeral b", where ?'a = rat]
    floor_divide_of_int_eq[of 1 "numeral b", where ?'a = rat] by simp_all

lemma ceiling_rat_numeral:
  "\<lceil>numeral a / numeral b :: rat\<rceil> = - (- numeral a div numeral b)"
  "\<lceil>1 / numeral b :: rat\<rceil> = - (- 1 div numeral b)"
  using floor_divide_of_int_eq[of "- numeral a" "numeral b", where ?'a = rat]
    floor_divide_of_int_eq[of "- 1" "numeral b", where ?'a = rat]
  by (simp_all add: ceiling_def)

lemmas round_eval = roundDouble_def binaryExponent_def roundHalfEven_def Let_def power_int_def
  floor_rat_numeral ceiling_rat_numeral power_divide

lemma roundDouble_3000000000: "roundDouble 3000000000 = Finite 3000000000"
  by (simp add: round_eval)

lemma roundDouble_1005:
  "roundDouble (1131529406376837 / 2 ^ 50 * 1000) = Finite (8840073487319039 / 2 ^ 43)"
  by (simp add: round_eval)

lemma roundDouble_ge_1000:
  assumes "1000 \<le> x" and "roundDouble x = Finite y"
  shows "1000 \<le> y"
proof (cases "x < 2 ^ 53")
  case True
  have "of_int 1000 \<le> x" using assms(1) by simp
  from roundDouble_ge_int[OF _ this True] assms(2) show ?thesis by auto
next
  case False
  have one: "1 \<le> x" using assms(1) by simp
  then have pos: "0 < x" by simp
  have "(2::rat) powi 53 \<le> x" using False by simp
  also have "x < 2 powi (binaryExponent x + 1)" using pos by (rule binaryExponent_bounds)
  finally have "53 < binaryExponent x + 1" by (rule two_powi_less_imp)
  then have "(2::rat) powi 53 \<le> 2 powi binaryExponent x"
    by (intro power_int_increasing) simp_all
  also have "\<dots> \<le> y" using one assms(2) by (rule roundDouble_error)
  finally show ?thesis by simp
qed

text \<open>A typing time of at most one second gives the minimum, a typing time of minus
  infinity too; plus infinity and \<open>NaN\<close> are not delays that a timer accepts.\<close>

lemma blockDelay_short:
  assumes "t \<le> 1"
  shows "mathMax (multiply (Finite t) (Finite 1000)) (Finite 1000) = Finite 1000"
proof (cases "0 < t * 1000")
  case True
  have "t * 1000 \<le> of_int 1000" using assms by simp
  from roundDouble_le_int[OF True this]
  obtain y where "roundDouble (t * 1000) = Finite y" "y \<le> 1000" by auto
  then show ?thesis by (simp add: max_def)
next
  case False
  then have "t * 1000 \<le> 0" by simp
  from roundDouble_nonpos[OF this] show ?thesis by auto
qed

lemma timeoutDelay_blockDelay:
  "timeoutDelay (blockDelay blk) =
     (case typingTime blk of
        Finite t \<Rightarrow> if t \<le> 1 then 1000
                    else timeoutDelay (mathMax (roundDouble (t * 1000)) (Finite 1000))
      | PosInfinity \<Rightarrow> 1
      | NegInfinity \<Rightarrow> 1000
      | NaN \<Rightarrow> 1)"
  using blockDelay_short by (simp add: blockDelay_def split: number.splits)

section \<open>Frame lemmas\<close>

lemma theSession_simps [simp]:
  "theSession (s\<lparr> timers := a \<rparr>) = theSession s"
  "theSession (s\<lparr> sendingTimeouts := b \<rparr>) = theSession s"
  "theSession (s\<lparr> bufferSockets := c \<rparr>) = theSession s"
  "theSession (s\<lparr> userSockets := d \<rparr>) = theSession s"
  "theSession (s\<lparr> connected := e \<rparr>) = theSession s"
  "theSession (s\<lparr> scheduled := f \<rparr>) = theSession s"
  "theSession (s\<lparr> nextTimeoutId := g \<rparr>) = theSession s"
  "theSession (s\<lparr> awaiting := h \<rparr>) = theSession s"
  "theSession (s\<lparr> emitted := i \<rparr>) = theSession s"
  "theSession (s\<lparr> calls := j \<rparr>) = theSession s"
  by (simp_all add: theSession_def fun_eq_iff)

lemma userTimersOf_simps [simp]:
  "userTimersOf (s\<lparr> sessions := a \<rparr>) = userTimersOf s"
  "userTimersOf (s\<lparr> sendingTimeouts := b \<rparr>) = userTimersOf s"
  "userTimersOf (s\<lparr> bufferSockets := c \<rparr>) = userTimersOf s"
  "userTimersOf (s\<lparr> userSockets := d \<rparr>) = userTimersOf s"
  "userTimersOf (s\<lparr> connected := e \<rparr>) = userTimersOf s"
  "userTimersOf (s\<lparr> scheduled := f \<rparr>) = userTimersOf s"
  "userTimersOf (s\<lparr> nextTimeoutId := g \<rparr>) = userTimersOf s"
  "userTimersOf (s\<lparr> awaiting := h \<rparr>) = userTimersOf s"
  "userTimersOf (s\<lparr> emitted := i \<rparr>) = userTimersOf s"
  "userTimersOf (s\<lparr> calls := j \<rparr>) = userTimersOf s"
  by (simp_all add: userTimersOf_def fun_eq_iff)

lemma userTimersOf_timers_update [simp]:
  "userTimersOf (s\<lparr> timers := tm \<rparr>) v = (case tm v of None \<Rightarrow> Map.empty | Some m \<Rightarrow> m)"
  by (simp add: userTimersOf_def)

lemma theSession_sessions_update [simp]:
  "theSession (s\<lparr> sessions := ss \<rparr>) v = (case ss v of None \<Rightarrow> newSession | Some x \<Rightarrow> x)"
  by (simp add: theSession_def)

lemma theSession_fold [simp]:
  "(case sessions s v of None \<Rightarrow> newSession | Some x \<Rightarrow> x) = theSession s v"
  by (simp add: theSession_def)

lemma userTimersOf_fold [simp]:
  "(case timers s v of None \<Rightarrow> Map.empty | Some m \<Rightarrow> m) = userTimersOf s v"
  by (simp add: userTimersOf_def)

lemma updSession_fields [simp]:
  "timers (updSession u f s) = timers s"
  "sendingTimeouts (updSession u f s) = sendingTimeouts s"
  "bufferSockets (updSession u f s) = bufferSockets s"
  "userSockets (updSession u f s) = userSockets s"
  "connected (updSession u f s) = connected s"
  "scheduled (updSession u f s) = scheduled s"
  "nextTimeoutId (updSession u f s) = nextTimeoutId s"
  "awaiting (updSession u f s) = awaiting s"
  "emitted (updSession u f s) = emitted s"
  "calls (updSession u f s) = calls s"
  "userTimersOf (updSession u f s) = userTimersOf s"
  "theSession (updSession u f s) v = (if v = u then f (theSession s u) else theSession s v)"
  by (simp_all add: updSession_def)

lemma getSession_fields [simp]:
  "timers (getSession u s) = timers s"
  "sendingTimeouts (getSession u s) = sendingTimeouts s"
  "bufferSockets (getSession u s) = bufferSockets s"
  "userSockets (getSession u s) = userSockets s"
  "connected (getSession u s) = connected s"
  "scheduled (getSession u s) = scheduled s"
  "nextTimeoutId (getSession u s) = nextTimeoutId s"
  "awaiting (getSession u s) = awaiting s"
  "emitted (getSession u s) = emitted s"
  "calls (getSession u s) = calls s"
  "userTimersOf (getSession u s) = userTimersOf s"
  "theSession (getSession u s) = theSession s"
  by (simp_all add: getSession_def fun_eq_iff)

lemma emit_fields [simp]:
  "sessions (emit sk e s) = sessions s"
  "timers (emit sk e s) = timers s"
  "sendingTimeouts (emit sk e s) = sendingTimeouts s"
  "bufferSockets (emit sk e s) = bufferSockets s"
  "userSockets (emit sk e s) = userSockets s"
  "connected (emit sk e s) = connected s"
  "scheduled (emit sk e s) = scheduled s"
  "nextTimeoutId (emit sk e s) = nextTimeoutId s"
  "awaiting (emit sk e s) = awaiting s"
  "emitted (emit sk e s) = emitted s @ [(sk, e)]"
  "calls (emit sk e s) = calls s"
  "userTimersOf (emit sk e s) = userTimersOf s"
  "theSession (emit sk e s) = theSession s"
  by (simp_all add: emit_def)

lemma clearTimer_fields [simp]:
  "sessions (clearTimer u t s) = sessions s"
  "sendingTimeouts (clearTimer u t s) = sendingTimeouts s"
  "bufferSockets (clearTimer u t s) = bufferSockets s"
  "userSockets (clearTimer u t s) = userSockets s"
  "connected (clearTimer u t s) = connected s"
  "nextTimeoutId (clearTimer u t s) = nextTimeoutId s"
  "awaiting (clearTimer u t s) = awaiting s"
  "emitted (clearTimer u t s) = emitted s"
  "calls (clearTimer u t s) = calls s"
  "theSession (clearTimer u t s) = theSession s"
  by (simp_all add: clearTimer_def getUserTimers_def clearTimeout_def split: option.splits)

lemma clearTimer_userTimersOf [simp]:
  "userTimersOf (clearTimer u t s) v = (if v = u then (userTimersOf s u)(t := None) else userTimersOf s v)"
  by (auto simp: clearTimer_def getUserTimers_def clearTimeout_def fun_eq_iff split: option.splits)

lemma clearTimer_scheduled [simp]:
  "scheduled (clearTimer u t s) =
     (case userTimersOf s u t of None \<Rightarrow> scheduled s | Some i \<Rightarrow> (scheduled s)(i := None))"
  by (simp add: clearTimer_def getUserTimers_def clearTimeout_def split: option.splits)

lemma setTimer_fields [simp]:
  "sessions (setTimer u t cb d s) = sessions s"
  "sendingTimeouts (setTimer u t cb d s) = sendingTimeouts s"
  "bufferSockets (setTimer u t cb d s) = bufferSockets s"
  "userSockets (setTimer u t cb d s) = userSockets s"
  "connected (setTimer u t cb d s) = connected s"
  "nextTimeoutId (setTimer u t cb d s) = nextTimeoutId s + 1"
  "awaiting (setTimer u t cb d s) = awaiting s"
  "emitted (setTimer u t cb d s) = emitted s"
  "calls (setTimer u t cb d s) = calls s"
  "theSession (setTimer u t cb d s) = theSession s"
  by (simp_all add: setTimer_def setTimeout_def Let_def)

lemma setTimer_userTimersOf [simp]:
  "userTimersOf (setTimer u t cb d s) v =
     (if v = u then (userTimersOf s u)(t \<mapsto> nextTimeoutId s) else userTimersOf s v)"
  by (auto simp: setTimer_def setTimeout_def Let_def fun_eq_iff split: option.splits)

lemma setTimer_scheduled [simp]:
  "scheduled (setTimer u t cb d s) =
     (scheduled (clearTimer u t s))(nextTimeoutId s \<mapsto> (timeoutDelay d, TimerFire u t cb))"
  by (simp add: setTimer_def setTimeout_def Let_def)

lemma stopSending_fields [simp]:
  "sessions (stopSending u s) = sessions s"
  "timers (stopSending u s) = timers s"
  "bufferSockets (stopSending u s) = bufferSockets s"
  "userSockets (stopSending u s) = userSockets s"
  "connected (stopSending u s) = connected s"
  "nextTimeoutId (stopSending u s) = nextTimeoutId s"
  "awaiting (stopSending u s) = awaiting s"
  "emitted (stopSending u s) = emitted s"
  "calls (stopSending u s) = calls s"
  "theSession (stopSending u s) = theSession s"
  "userTimersOf (stopSending u s) = userTimersOf s"
  "sendingTimeouts (stopSending u s) = (sendingTimeouts s)(u := None)"
  by (auto simp: stopSending_def clearTimeout_def split: option.splits)

lemma stopSending_scheduled [simp]:
  "scheduled (stopSending u s) =
     (case sendingTimeouts s u of None \<Rightarrow> scheduled s | Some i \<Rightarrow> (scheduled s)(i := None))"
  by (simp add: stopSending_def clearTimeout_def split: option.splits)

lemma getSession_idem [simp]:
  "getSession u (getSession u s) = getSession u s"
  "updSession u f (getSession u s) = updSession u f s"
  "getSession u (updSession u f s) = updSession u f s"
  by (simp_all add: getSession_def updSession_def)

lemma sessions_fields [simp]:
  "sessions (updSession u f s) = (sessions s)(u \<mapsto> f (theSession s u))"
  "sessions (getSession u s) = (sessions s)(u \<mapsto> theSession s u)"
  by (simp_all add: updSession_def getSession_def)

lemma getUserTimers_fields [simp]:
  "sessions (getUserTimers u s) = sessions s"
  "sendingTimeouts (getUserTimers u s) = sendingTimeouts s"
  "bufferSockets (getUserTimers u s) = bufferSockets s"
  "userSockets (getUserTimers u s) = userSockets s"
  "connected (getUserTimers u s) = connected s"
  "scheduled (getUserTimers u s) = scheduled s"
  "nextTimeoutId (getUserTimers u s) = nextTimeoutId s"
  "awaiting (getUserTimers u s) = awaiting s"
  "emitted (getUserTimers u s) = emitted s"
  "calls (getUserTimers u s) = calls s"
  "theSession (getUserTimers u s) = theSession s"
  "userTimersOf (getUserTimers u s) = userTimersOf s"
  "timers (getUserTimers u s) = (timers s)(u \<mapsto> userTimersOf s u)"
  by (auto simp: getUserTimers_def fun_eq_iff)

lemma clearTimer_timers [simp]:
  "timers (clearTimer u t s) = (timers s)(u \<mapsto> (userTimersOf s u)(t := None))"
  by (auto simp: clearTimer_def getUserTimers_def clearTimeout_def fun_eq_iff split: option.splits)

lemma setTimer_timers [simp]:
  "timers (setTimer u t cb d s) = (timers s)(u \<mapsto> (userTimersOf s u)(t \<mapsto> nextTimeoutId s))"
  by (auto simp: setTimer_def setTimeout_def Let_def fun_eq_iff)

lemma timerType_cases: "t = TypingIdle \<or> t = MaxTyping \<or> t = GroupDelay \<or> t = EndUpdate"
  by (cases t) simp_all

lemma cancelAllTimers_fields [simp]:
  "sessions (cancelAllTimers u s) = sessions s"
  "sendingTimeouts (cancelAllTimers u s) = sendingTimeouts s"
  "bufferSockets (cancelAllTimers u s) = bufferSockets s"
  "userSockets (cancelAllTimers u s) = userSockets s"
  "connected (cancelAllTimers u s) = connected s"
  "nextTimeoutId (cancelAllTimers u s) = nextTimeoutId s"
  "awaiting (cancelAllTimers u s) = awaiting s"
  "emitted (cancelAllTimers u s) = emitted s"
  "calls (cancelAllTimers u s) = calls s"
  "theSession (cancelAllTimers u s) = theSession s"
  by (simp_all add: cancelAllTimers_def)

lemma cancelAllTimers_userTimersOf [simp]:
  "userTimersOf (cancelAllTimers u s) v = (if v = u then Map.empty else userTimersOf s v)"
proof -
  have "(userTimersOf s u)(TypingIdle := None, MaxTyping := None, GroupDelay := None,
          EndUpdate := None) = Map.empty"
    using timerType_cases by (auto simp: fun_eq_iff)
  then show ?thesis by (simp add: cancelAllTimers_def)
qed

lemma cancelAllTimers_timers [simp]:
  "timers (cancelAllTimers u s) = (timers s)(u \<mapsto> Map.empty)"
proof -
  have "(userTimersOf s u)(TypingIdle := None, MaxTyping := None, GroupDelay := None,
          EndUpdate := None) = Map.empty"
    using timerType_cases by (auto simp: fun_eq_iff)
  then show ?thesis by (simp add: cancelAllTimers_def)
qed

lemma cancelAllTimers_scheduled:
  "scheduled (cancelAllTimers u s) i =
     (if \<exists>t. userTimersOf s u t = Some i then None else scheduled s i)"
proof -
  have "(\<exists>t. userTimersOf s u t = Some i) \<longleftrightarrow>
        userTimersOf s u TypingIdle = Some i \<or> userTimersOf s u MaxTyping = Some i
        \<or> userTimersOf s u GroupDelay = Some i \<or> userTimersOf s u EndUpdate = Some i"
    using timerType_cases by metis
  then show ?thesis
    by (auto simp: cancelAllTimers_def split: option.splits)
qed

lemma cancelAllTimers_none:
  "userTimersOf s u = Map.empty \<Longrightarrow> scheduled (cancelAllTimers u s) = scheduled s"
  by (simp add: fun_eq_iff cancelAllTimers_scheduled)

lemmas session_writers = addUserMessage_def addAIMessage_def setBuffer_def advanceBlock_def pauseBuffer_def
  resumeBuffer_def markBufferComplete_def setTypingState_def enableIdleTimer_def disableIdleTimer_def
  setUpdateCheckNeeded_def setWaitingForGroup_def setEndUpdateTimer_def setUserMessagedSinceEndUpdate_def

lemmas session_readers = getHistory_def isCurrentGroupComplete_def getCurrentGroup_def isBufferComplete_def
  isBufferPaused_def getTypingState_def getUpdateCheckState_def getEndUpdateState_def
  hasUserMessagedSinceEndUpdate_def

lemmas timer_starters = startTypingIdleTimer_def startMaxTypingTimer_def startGroupDelayTimer_def
  startEndUpdateTimer_def startGroupDelayFlow_def

lemma getNextBlock_fst:
  "fst (getNextBlock u s) =
     (let b = buffer (theSession s u) in
      if currentIndex b \<ge> length (blocks b) then None else Some (blocks b ! currentIndex b))"
  by (simp add: getNextBlock_def Let_def)

lemma getNextBlock_Some:
  "fst (getNextBlock u s) = Some blk \<Longrightarrow> getNextBlock u s = (Some blk, getSession u s)"
  by (simp add: getNextBlock_def Let_def split: if_splits)

lemma getNextBlock_None:
  "fst (getNextBlock u s) = None \<Longrightarrow>
   getNextBlock u s = (None, updSession u (\<lambda>x. x\<lparr> buffer := (buffer x)\<lparr> isComplete := True \<rparr> \<rparr>) s)"
  by (simp add: getNextBlock_def Let_def split: if_splits)

lemma handleGroupComplete_fields [simp]:
  "sendingTimeouts (handleGroupComplete u g s) = sendingTimeouts s"
  "bufferSockets (handleGroupComplete u g s) = bufferSockets s"
  "userSockets (handleGroupComplete u g s) = userSockets s"
  "connected (handleGroupComplete u g s) = connected s"
  "awaiting (handleGroupComplete u g s) = awaiting s"
  "emitted (handleGroupComplete u g s) = emitted s"
  "calls (handleGroupComplete u g s) = calls s @ [GroupCompleteCall u g]"
  "buffer (theSession (handleGroupComplete u g s) v) = buffer (theSession s v)"
  "history (theSession (handleGroupComplete u g s) v) = history (theSession s v)"
  by (simp_all add: handleGroupComplete_def Let_def session_writers session_readers timer_starters)

text \<open>The branch of \<open>_sendNextBlock\<close> that emits a block.\<close>

lemma sendNextBlock_emits:
  assumes "connected s sk" and "\<not> isBufferPaused u s"
    and "\<not> (needsUpdate (getUpdateCheckState u s) \<and> \<not> waitingForGroup (getUpdateCheckState u s))"
    and "fst (getNextBlock u s) = Some blk"
  shows "sendNextBlock u (Some sk) g b s =
     (let s5 = advanceBlock u (addAIMessage u (blockText blk)
                 (emit sk (AiBlock (blockText blk) (blockGroup blk)) (getSession u s)));
          s6 = (if getCurrentGroup u s \<noteq> getCurrentGroup u s5 \<and> g
                then handleGroupComplete u (getCurrentGroup u s) s5 else s5);
          s7 = setTimeout (PacerStep u (Some sk) g b) (blockDelay blk) s6
      in s7\<lparr> sendingTimeouts := (sendingTimeouts s7)(u \<mapsto> nextTimeoutId s6) \<rparr>)"
proof -
  have nb: "getNextBlock u (getSession u s) = (Some blk, getSession u s)"
    using assms(4) by (simp add: getNextBlock_def Let_def getSession_def[symmetric] split: if_splits)
  have live: "connected s sk = True" and np: "isBufferPaused u (getSession u s) = False"
    and ni: "(needsUpdate (getUpdateCheckState u (getSession u s))
              \<and> \<not> waitingForGroup (getUpdateCheckState u (getSession u s))) = False"
    using assms(1-3) by (simp_all add: session_readers)
  show ?thesis
    unfolding sendNextBlock_def
    by (simp add: Let_def nb live np ni getCurrentGroup_def del: not_False_eq_True)
qed


lemma sendNextBlock_dead:
  "socketDead socket s \<Longrightarrow> sendNextBlock u socket g b s = stopSending u s"
  by (simp add: sendNextBlock_def socketDead_def split: option.splits)

lemma sendNextBlock_paused:
  "connected s sk \<Longrightarrow> isBufferPaused u s \<Longrightarrow> sendNextBlock u (Some sk) g b s = getSession u s"
  by (simp add: sendNextBlock_def Let_def isBufferPaused_def)

lemma sendNextBlock_interrupted:
  assumes "connected s sk" and "\<not> isBufferPaused u s"
    and "needsUpdate (getUpdateCheckState u s)" and "\<not> waitingForGroup (getUpdateCheckState u s)"
  shows "sendNextBlock u (Some sk) g b s =
           (getSession u s)\<lparr> sendingTimeouts := (sendingTimeouts s)(u := None) \<rparr>"
  using assms by (simp add: sendNextBlock_def Let_def isBufferPaused_def getUpdateCheckState_def)

lemma sendNextBlock_done:
  assumes "connected s sk" and "\<not> isBufferPaused u s"
    and "\<not> (needsUpdate (getUpdateCheckState u s) \<and> \<not> waitingForGroup (getUpdateCheckState u s))"
    and "fst (getNextBlock u s) = None"
  shows "sendNextBlock u (Some sk) g b s =
     (let s3 = (updSession u (\<lambda>x. x\<lparr> buffer := (buffer x)\<lparr> isComplete := True \<rparr> \<rparr>) s)
                 \<lparr> sendingTimeouts := (sendingTimeouts s)(u := None) \<rparr>
      in if b then handleBufferComplete u s3 else s3)"
proof -
  have nb: "getNextBlock u (getSession u s) =
      (None, updSession u (\<lambda>x. x\<lparr> buffer := (buffer x)\<lparr> isComplete := True \<rparr> \<rparr>) s)"
    using assms(4) by (simp add: getNextBlock_def Let_def split: if_splits)
  have live: "connected s sk = True" and np: "isBufferPaused u (getSession u s) = False"
    and ni: "(needsUpdate (getUpdateCheckState u (getSession u s))
              \<and> \<not> waitingForGroup (getUpdateCheckState u (getSession u s))) = False"
    using assms(1-3) by (simp_all add: session_readers)
  show ?thesis
    unfolding sendNextBlock_def
    by (simp add: Let_def nb live np ni del: not_False_eq_True)
qed


section \<open>Every scheduled closure is on record\<close>

lemma stored_frame:
  "userTimersOf s' = userTimersOf s \<Longrightarrow> sendingTimeouts s' = sendingTimeouts s
   \<Longrightarrow> stored s' i c = stored s i c"
  by (cases c) simp_all

lemma schedInv_frame:
  "scheduled s' = scheduled s \<Longrightarrow> nextTimeoutId s' = nextTimeoutId s
   \<Longrightarrow> userTimersOf s' = userTimersOf s \<Longrightarrow> sendingTimeouts s' = sendingTimeouts s
   \<Longrightarrow> schedInv s' = schedInv s"
  by (simp add: schedInv_def stored_frame[of s' s])

lemma noChain_frame: "scheduled s' = scheduled s \<Longrightarrow> noChain u s' = noChain u s"
  by (simp add: noChain_def)

lemma schedInv_initial: "schedInv initialServer"
  by (simp add: schedInv_def initialServer_def)

lemma schedInv_session [simp]:
  "schedInv (updSession u f s) = schedInv s"
  "schedInv (getSession u s) = schedInv s"
  "schedInv (emit sk e s) = schedInv s"
  "schedInv (getUserTimers u s) = schedInv s"
  "schedInv (s\<lparr> calls := c \<rparr>) = schedInv s"
  "schedInv (s\<lparr> awaiting := a \<rparr>) = schedInv s"
  "schedInv (s\<lparr> bufferSockets := bs \<rparr>) = schedInv s"
  "schedInv (s\<lparr> userSockets := us \<rparr>) = schedInv s"
  "schedInv (s\<lparr> connected := cn \<rparr>) = schedInv s"
  "schedInv (s\<lparr> sessions := ss \<rparr>) = schedInv s"
  by (rule schedInv_frame; simp)+

lemma noChain_session [simp]:
  "noChain v (updSession u f s) = noChain v s"
  "noChain v (getSession u s) = noChain v s"
  "noChain v (emit sk e s) = noChain v s"
  "noChain v (getUserTimers u s) = noChain v s"
  "noChain v (s\<lparr> calls := c \<rparr>) = noChain v s"
  "noChain v (s\<lparr> awaiting := a \<rparr>) = noChain v s"
  "noChain v (s\<lparr> bufferSockets := bs \<rparr>) = noChain v s"
  "noChain v (s\<lparr> userSockets := us \<rparr>) = noChain v s"
  "noChain v (s\<lparr> connected := cn \<rparr>) = noChain v s"
  "noChain v (s\<lparr> sessions := ss \<rparr>) = noChain v s"
  "noChain v (s\<lparr> sendingTimeouts := st \<rparr>) = noChain v s"
  "noChain v (s\<lparr> timers := tm \<rparr>) = noChain v s"
  by (simp_all add: noChain_def)

lemma schedInv_clearTimer: "schedInv s \<Longrightarrow> schedInv (clearTimer u t s)"
  unfolding schedInv_def
proof (intro allI impI)
  fix i d c
  assume inv: "\<forall>i d c. scheduled s i = Some (d, c) \<longrightarrow> i < nextTimeoutId s \<and> stored s i c"
    and sch: "scheduled (clearTimer u t s) i = Some (d, c)"
  from sch have old: "scheduled s i = Some (d, c)" and ne: "userTimersOf s u t \<noteq> Some i"
    by (auto split: option.splits if_splits)
  from inv old have lt: "i < nextTimeoutId s" and st: "stored s i c" by blast+
  from st ne have "stored (clearTimer u t s) i c"
    by (cases c) auto
  with lt show "i < nextTimeoutId (clearTimer u t s) \<and> stored (clearTimer u t s) i c" by simp
qed

lemma noChain_clearTimer: "noChain v s \<Longrightarrow> noChain v (clearTimer u t s)"
  by (auto simp: noChain_def split: option.splits)

lemma schedInv_setTimer:
  assumes "schedInv s" and "wellPaired t cb"
  shows "schedInv (setTimer u t cb d s)"
  unfolding schedInv_def
proof (intro allI impI)
  fix i d' c
  assume sch: "scheduled (setTimer u t cb d s) i = Some (d', c)"
  have inv: "schedInv (clearTimer u t s)" using assms(1) by (rule schedInv_clearTimer)
  show "i < nextTimeoutId (setTimer u t cb d s) \<and> stored (setTimer u t cb d s) i c"
  proof (cases "i = nextTimeoutId s")
    case True
    with sch assms(2) show ?thesis by auto
  next
    case False
    with sch have old: "scheduled (clearTimer u t s) i = Some (d', c)" by simp
    with inv have lt: "i < nextTimeoutId s" and st: "stored (clearTimer u t s) i c"
      unfolding schedInv_def by auto
    from st have "stored (setTimer u t cb d s) i c"
      by (cases c) (auto split: if_splits)
    with lt show ?thesis by simp
  qed
qed

lemma noChain_setTimer: "noChain v s \<Longrightarrow> noChain v (setTimer u t cb d s)"
  by (auto simp: noChain_def split: option.splits)

lemma schedInv_stopSending: "schedInv s \<Longrightarrow> schedInv (stopSending u s)"
  unfolding schedInv_def
proof (intro allI impI)
  fix i d c
  assume inv: "\<forall>i d c. scheduled s i = Some (d, c) \<longrightarrow> i < nextTimeoutId s \<and> stored s i c"
    and sch: "scheduled (stopSending u s) i = Some (d, c)"
  from sch have old: "scheduled s i = Some (d, c)" and ne: "sendingTimeouts s u \<noteq> Some i"
    by (auto split: option.splits if_splits)
  from inv old have lt: "i < nextTimeoutId s" and st: "stored s i c" by blast+
  from st ne have "stored (stopSending u s) i c"
    by (cases c) auto
  with lt show "i < nextTimeoutId (stopSending u s) \<and> stored (stopSending u s) i c" by simp
qed

lemma noChain_stopSending: "schedInv s \<Longrightarrow> noChain u (stopSending u s)"
  unfolding noChain_def schedInv_def
proof (intro allI notI)
  fix i d sk g b
  assume inv: "\<forall>i d c. scheduled s i = Some (d, c) \<longrightarrow> i < nextTimeoutId s \<and> stored s i c"
    and sch: "scheduled (stopSending u s) i = Some (d, PacerStep u sk g b)"
  from sch have old: "scheduled s i = Some (d, PacerStep u sk g b)"
    and ne: "sendingTimeouts s u \<noteq> Some i"
    by (auto split: option.splits if_splits)
  from inv old have "stored s i (PacerStep u sk g b)" by blast
  with ne show False by simp
qed

lemma noChain_stopSending_other: "noChain v s \<Longrightarrow> noChain v (stopSending u s)"
  by (auto simp: noChain_def split: option.splits)

text \<open>Where no step of \<open>u\<close> is scheduled, the entry of \<open>u\<close> in \<open>sendingTimeouts\<close> is free.\<close>

lemma schedInv_sendingTimeouts:
  assumes inv: "schedInv s" and nc: "noChain u s"
    and others: "\<forall>v. v \<noteq> u \<longrightarrow> st v = sendingTimeouts s v"
  shows "schedInv (s\<lparr> sendingTimeouts := st \<rparr>)"
  unfolding schedInv_def
proof (intro allI impI)
  fix i d c
  assume sch: "scheduled (s\<lparr> sendingTimeouts := st \<rparr>) i = Some (d, c)"
  then have old: "scheduled s i = Some (d, c)" by simp
  with inv have lt: "i < nextTimeoutId s" and st: "stored s i c"
    unfolding schedInv_def by blast+
  have "stored (s\<lparr> sendingTimeouts := st \<rparr>) i c"
  proof (cases c)
    case (TimerFire v t cb)
    with st show ?thesis by simp
  next
    case (PacerStep v sk g b)
    with nc old have "v \<noteq> u" by (auto simp: noChain_def)
    with others st PacerStep show ?thesis by simp
  qed
  with lt show "i < nextTimeoutId (s\<lparr> sendingTimeouts := st \<rparr>)
     \<and> stored (s\<lparr> sendingTimeouts := st \<rparr>) i c" by simp
qed

lemma schedInv_schedule_step:
  assumes inv: "schedInv s" and nc: "noChain u s"
    and new: "st u = Some (nextTimeoutId s)"
    and others: "\<forall>v. v \<noteq> u \<longrightarrow> st v = sendingTimeouts s v"
  shows "schedInv ((setTimeout (PacerStep u sk g b) d s)\<lparr> sendingTimeouts := st \<rparr>)"
  unfolding schedInv_def
proof (intro allI impI)
  fix i d' c
  let ?s' = "(setTimeout (PacerStep u sk g b) d s)\<lparr> sendingTimeouts := st \<rparr>"
  assume sch: "scheduled ?s' i = Some (d', c)"
  show "i < nextTimeoutId ?s' \<and> stored ?s' i c"
  proof (cases "i = nextTimeoutId s")
    case True
    with sch new show ?thesis by (auto simp: setTimeout_def)
  next
    case False
    with sch have old: "scheduled s i = Some (d', c)" by (simp add: setTimeout_def)
    with inv have lt: "i < nextTimeoutId s" and st: "stored s i c"
      unfolding schedInv_def by auto
    have "stored ?s' i c"
    proof (cases c)
      case (TimerFire v t cb)
      with st show ?thesis by (simp add: setTimeout_def)
    next
      case (PacerStep v sk' g' b')
      with nc old have "v \<noteq> u" by (auto simp: noChain_def)
      with others st PacerStep show ?thesis by simp
    qed
    with lt show ?thesis by (simp add: setTimeout_def)
  qed
qed

lemmas timer_cancels = cancelTypingTimers_def cancelEndUpdateTimer_def cancelGroupDelayTimer_def

lemma schedInv_cancel:
  assumes "schedInv s"
  shows "schedInv (cancelAllTimers u s)" and "schedInv (cancelTypingTimers u s)"
    and "schedInv (cancelEndUpdateTimer u s)" and "schedInv (cancelGroupDelayTimer u s)"
  using assms by (simp_all add: cancelAllTimers_def timer_cancels schedInv_clearTimer)

lemma noChain_cancel:
  assumes "noChain v s"
  shows "noChain v (cancelAllTimers u s)" and "noChain v (cancelTypingTimers u s)"
    and "noChain v (cancelEndUpdateTimer u s)" and "noChain v (cancelGroupDelayTimer u s)"
  using assms by (simp_all add: cancelAllTimers_def timer_cancels noChain_clearTimer)

lemma schedInv_start:
  assumes "schedInv s"
  shows "schedInv (startGroupDelayFlow u s)"
    and "schedInv (startEndUpdateTimer u EndUpdateExpired s)"
    and "schedInv (startMaxTypingTimer u MaxTypingExpired s)"
    and "schedInv (startTypingIdleTimer u TypingIdleExpired s)"
    and "schedInv (startTypingIdleTimer u IdleAfterGroupDelayExpired s)"
  using assms by (simp_all add: timer_starters schedInv_setTimer wellPaired_def)

lemma noChain_start:
  assumes "noChain v s"
  shows "noChain v (startGroupDelayFlow u s)"
    and "noChain v (startEndUpdateTimer u cb s)"
    and "noChain v (startMaxTypingTimer u cb s)"
    and "noChain v (startTypingIdleTimer u cb s)"
  using assms by (simp_all add: timer_starters noChain_setTimer)

lemma schedInv_handleGroupComplete: "schedInv s \<Longrightarrow> schedInv (handleGroupComplete u g s)"
  by (simp add: handleGroupComplete_def Let_def session_writers schedInv_start)

lemma noChain_handleGroupComplete: "noChain v s \<Longrightarrow> noChain v (handleGroupComplete u g s)"
  by (simp add: handleGroupComplete_def Let_def session_writers noChain_start)

lemma schedInv_handleBufferComplete: "schedInv s \<Longrightarrow> schedInv (handleBufferComplete u s)"
  by (simp add: handleBufferComplete_def Let_def session_writers schedInv_start split: option.splits)

lemma noChain_handleBufferComplete: "noChain v s \<Longrightarrow> noChain v (handleBufferComplete u s)"
  by (simp add: handleBufferComplete_def Let_def session_writers noChain_start split: option.splits)

lemma schedInv_sendNextBlock:
  assumes inv: "schedInv s" and nc: "noChain u s"
  shows "schedInv (sendNextBlock u socket g b s)"
proof (cases "socketDead socket s")
  case True
  then show ?thesis using inv by (simp add: sendNextBlock_dead schedInv_stopSending)
next
  case False
  then obtain sk where sk: "socket = Some sk" and live: "connected s sk"
    by (auto simp: socketDead_def split: option.splits)
  show ?thesis
  proof (cases "isBufferPaused u s")
    case True
    with live sk inv show ?thesis by (simp add: sendNextBlock_paused)
  next
    case np: False
    show ?thesis
    proof (cases "needsUpdate (getUpdateCheckState u s) \<and> \<not> waitingForGroup (getUpdateCheckState u s)")
      case True
      have "schedInv ((getSession u s)\<lparr> sendingTimeouts := (sendingTimeouts s)(u := None) \<rparr>)"
        using inv nc by (intro schedInv_sendingTimeouts[where u = u]) simp_all
      with True live np sk show ?thesis by (simp add: sendNextBlock_interrupted)
    next
      case ni: False
      show ?thesis
      proof (cases "fst (getNextBlock u s)")
        case None
        let ?s3 = "(updSession u (\<lambda>x. x\<lparr> buffer := (buffer x)\<lparr> isComplete := True \<rparr> \<rparr>) s)
                 \<lparr> sendingTimeouts := (sendingTimeouts s)(u := None) \<rparr>"
        have "schedInv ?s3"
          using inv nc by (intro schedInv_sendingTimeouts[where u = u]) simp_all
        then show ?thesis
          unfolding sk sendNextBlock_done[OF live np ni None]
          by (simp add: Let_def schedInv_handleBufferComplete)
      next
        case (Some blk)
        let ?s5 = "advanceBlock u (addAIMessage u (blockText blk)
                 (emit sk (AiBlock (blockText blk) (blockGroup blk)) (getSession u s)))"
        let ?s6 = "if getCurrentGroup u s \<noteq> getCurrentGroup u ?s5 \<and> g
                then handleGroupComplete u (getCurrentGroup u s) ?s5 else ?s5"
        have i5: "schedInv ?s5" and n5: "noChain u ?s5"
          using inv nc by (simp_all add: session_writers)
        then have i6: "schedInv ?s6" and n6: "noChain u ?s6"
          by (simp_all add: schedInv_handleGroupComplete noChain_handleGroupComplete)
        have "schedInv ((setTimeout (PacerStep u (Some sk) g b) (blockDelay blk) ?s6)
            \<lparr> sendingTimeouts := (sendingTimeouts
                 (setTimeout (PacerStep u (Some sk) g b) (blockDelay blk) ?s6))
                 (u \<mapsto> nextTimeoutId ?s6) \<rparr>)"
          using i6 n6 by (rule schedInv_schedule_step) (simp_all add: setTimeout_def)
        then show ?thesis
          unfolding sk sendNextBlock_emits[OF live np ni Some] Let_def .
      qed
    qed
  qed
qed

lemma schedInv_startSendingBuffer:
  "schedInv s \<Longrightarrow> schedInv (startSendingBuffer u socket g b s)"
  by (auto simp: startSendingBuffer_def Let_def session_writers schedInv_stopSending
      noChain_stopSending intro!: schedInv_sendNextBlock split: option.splits)

lemma schedInv_triggerUpdateBuffer: "schedInv s \<Longrightarrow> schedInv (triggerUpdateBuffer u s)"
  by (simp add: triggerUpdateBuffer_def Let_def schedInv_stopSending schedInv_cancel)

lemma schedInv_triggerUpdateBuffer_resume:
  "schedInv s \<Longrightarrow> schedInv (triggerUpdateBuffer_resume u r s)"
  by (auto simp: triggerUpdateBuffer_resume_def Let_def session_writers
      intro!: schedInv_startSendingBuffer split: sum.splits option.splits)

lemma schedInv_triggerUpdateCheck: "schedInv s \<Longrightarrow> schedInv (triggerUpdateCheck u s)"
  by (simp add: triggerUpdateCheck_def Let_def)

lemma schedInv_triggerUpdateCheck_resume:
  "schedInv s \<Longrightarrow> schedInv (triggerUpdateCheck_resume u a s)"
  by (auto simp: triggerUpdateCheck_resume_def Let_def session_writers schedInv_stopSending
      intro!: schedInv_start)

lemma schedInv_handleUserMessage: "schedInv s \<Longrightarrow> schedInv (handleUserMessage u m sk s)"
  by (auto simp: handleUserMessage_def Let_def session_writers registerSocket_def
      intro!: schedInv_triggerUpdateBuffer schedInv_triggerUpdateCheck schedInv_cancel)

lemma schedInv_handleTypingStatus: "schedInv s \<Longrightarrow> schedInv (handleTypingStatus u t sk s)"
  by (auto simp: handleTypingStatus_def Let_def session_writers registerSocket_def
      intro!: schedInv_start schedInv_cancel)

lemma schedInv_stopAIResponse: "schedInv s \<Longrightarrow> schedInv (stopAIResponse u socket s)"
  by (auto simp: stopAIResponse_def Let_def session_writers
      intro!: schedInv_stopSending schedInv_cancel split: option.splits)

lemma schedInv_timerCleanup: "schedInv s \<Longrightarrow> schedInv (timerCleanup u s)"
proof -
  assume "schedInv s"
  then have inv: "schedInv (cancelAllTimers u s)" by (rule schedInv_cancel)
  have "userTimersOf ((cancelAllTimers u s)\<lparr> timers := (timers (cancelAllTimers u s))(u := None) \<rparr>)
        = userTimersOf (cancelAllTimers u s)"
    by (auto simp: fun_eq_iff)
  then have "schedInv ((cancelAllTimers u s)\<lparr> timers := (timers (cancelAllTimers u s))(u := None) \<rparr>)
        = schedInv (cancelAllTimers u s)"
    by (intro schedInv_frame) simp_all
  with inv show ?thesis by (simp add: timerCleanup_def Let_def)
qed

lemma schedInv_cleanup: "schedInv s \<Longrightarrow> schedInv (cleanup u s)"
  by (simp add: cleanup_def Let_def bufferCleanup_def clearSession_def
      schedInv_stopSending schedInv_timerCleanup)

lemma schedInv_runCallback: "schedInv s \<Longrightarrow> schedInv (runCallback cb u s)"
  by (cases cb) (auto simp: Let_def session_writers intro!: schedInv_triggerUpdateBuffer schedInv_start)

lemma schedInv_fireTimeout: "schedInv s \<Longrightarrow> schedInv (fireTimeout i s)"
proof (cases "scheduled s i")
  case None
  assume "schedInv s"
  with None show ?thesis by (simp add: fireTimeout_def)
next
  case (Some dc)
  assume inv: "schedInv s"
  obtain d c where dc: "dc = (d, c)" by (cases dc)
  let ?s0 = "s\<lparr> scheduled := (scheduled s)(i := None) \<rparr>"
  have inv0: "schedInv ?s0"
    using inv unfolding schedInv_def
    by (auto split: if_splits simp: stored_frame[of ?s0 s])
  have st: "stored s i c" using inv Some dc unfolding schedInv_def by auto
  show ?thesis
  proof (cases c)
    case (TimerFire u t cb)
    have "schedInv (timerFired u t ?s0)"
      unfolding schedInv_def
    proof (intro allI impI)
      fix j d' c'
      assume sch: "scheduled (timerFired u t ?s0) j = Some (d', c')"
      then have ne: "j \<noteq> i" and old: "scheduled s j = Some (d', c')"
        by (auto simp: timerFired_def split: if_splits)
      from inv old have lt: "j < nextTimeoutId s" and st': "stored s j c'"
        unfolding schedInv_def by auto
      from st TimerFire have "userTimersOf s u t = Some i" by simp
      with st' ne have "stored (timerFired u t ?s0) j c'"
        by (cases c') (auto simp: timerFired_def)
      with lt show "j < nextTimeoutId (timerFired u t ?s0) \<and> stored (timerFired u t ?s0) j c'"
        by (simp add: timerFired_def)
    qed
    then show ?thesis
      using Some dc TimerFire by (simp add: fireTimeout_def schedInv_runCallback)
  next
    case (PacerStep u sk g b)
    have "noChain u ?s0"
      unfolding noChain_def
    proof (intro allI notI)
      fix j d' sk' g' b'
      assume sch: "scheduled ?s0 j = Some (d', PacerStep u sk' g' b')"
      then have ne: "j \<noteq> i" and old: "scheduled s j = Some (d', PacerStep u sk' g' b')"
        by (auto split: if_splits)
      from inv old have "sendingTimeouts s u = Some j" unfolding schedInv_def by fastforce
      moreover from st PacerStep have "sendingTimeouts s u = Some i" by simp
      ultimately show False using ne by simp
    qed
    with inv0 show ?thesis
      using Some dc PacerStep by (simp add: fireTimeout_def schedInv_sendNextBlock)
  qed
qed

lemma schedInv_step: "schedInv s \<Longrightarrow> schedInv (step e s)"
  by (cases e)
     (auto simp: registerSocket_def dropCall_def schedInv_handleUserMessage
        schedInv_handleTypingStatus schedInv_stopAIResponse schedInv_cleanup schedInv_fireTimeout
        schedInv_triggerUpdateCheck_resume schedInv_triggerUpdateBuffer_resume
        split: llmCall.splits)

lemma reachable_schedInv: "reachable s \<Longrightarrow> schedInv s"
  by (induction rule: reachable.induct) (simp_all add: schedInv_initial schedInv_step)

lemma reachable_run: "reachable s \<Longrightarrow> reachable (run es s)"
  unfolding run_def
  by (induction es arbitrary: s) (simp_all add: reachable_step)

lemma schedInv_run: "schedInv s \<Longrightarrow> schedInv (run es s)"
  unfolding run_def
  by (induction es arbitrary: s) (simp_all add: schedInv_step)

lemma retired_session [simp]:
  "retired i (updSession u f s) = retired i s"
  "retired i (getSession u s) = retired i s"
  "retired i (emit sk e s) = retired i s"
  "retired i (s\<lparr> calls := c \<rparr>) = retired i s"
  "retired i (s\<lparr> sendingTimeouts := st \<rparr>) = retired i s"
  "retired i (s\<lparr> bufferSockets := bs \<rparr>) = retired i s"
  by (simp_all add: retired_def)


lemma retired_setTimer: "retired i s \<Longrightarrow> retired i (setTimer u t cb d s)"
  by (auto simp: retired_def split: option.splits)

lemma retired_stopSending: "retired i s \<Longrightarrow> retired i (stopSending u s)"
  by (auto simp: retired_def split: option.splits)

lemma retired_handleGroupComplete: "retired i s \<Longrightarrow> retired i (handleGroupComplete u g s)"
  by (simp add: handleGroupComplete_def Let_def session_writers timer_starters retired_setTimer)

lemma retired_handleBufferComplete: "retired i s \<Longrightarrow> retired i (handleBufferComplete u s)"
  by (simp add: handleBufferComplete_def Let_def session_writers timer_starters retired_setTimer
      split: option.splits)

lemma retired_sendNextBlock:
  assumes r: "retired i s"
  shows "retired i (sendNextBlock u socket g b s)"
proof (cases "socketDead socket s")
  case True
  then show ?thesis using r by (simp add: sendNextBlock_dead retired_stopSending)
next
  case False
  then obtain sk where sk: "socket = Some sk" and live: "connected s sk"
    by (auto simp: socketDead_def split: option.splits)
  show ?thesis
  proof (cases "isBufferPaused u s")
    case True
    with live sk r show ?thesis by (simp add: sendNextBlock_paused)
  next
    case np: False
    show ?thesis
    proof (cases "needsUpdate (getUpdateCheckState u s) \<and> \<not> waitingForGroup (getUpdateCheckState u s)")
      case True
      with live np sk r show ?thesis by (simp add: sendNextBlock_interrupted)
    next
      case ni: False
      show ?thesis
      proof (cases "fst (getNextBlock u s)")
        case None
        show ?thesis
          unfolding sk sendNextBlock_done[OF live np ni None]
          using r by (simp add: Let_def retired_handleBufferComplete)
      next
        case (Some blk)
        let ?s5 = "advanceBlock u (addAIMessage u (blockText blk)
                 (emit sk (AiBlock (blockText blk) (blockGroup blk)) (getSession u s)))"
        let ?s6 = "if getCurrentGroup u s \<noteq> getCurrentGroup u ?s5 \<and> g
                then handleGroupComplete u (getCurrentGroup u s) ?s5 else ?s5"
        have "retired i ?s5" using r by (simp add: session_writers)
        then have "retired i ?s6" by (simp add: retired_handleGroupComplete)
        then show ?thesis
          unfolding sk sendNextBlock_emits[OF live np ni Some] Let_def
          by (auto simp: retired_def setTimeout_def)
      qed
    qed
  qed
qed


lemma retired_frame [simp]:
  "retired i (s\<lparr> awaiting := a \<rparr>) = retired i s"
  "retired i (s\<lparr> timers := tm \<rparr>) = retired i s"
  "retired i (getUserTimers u s) = retired i s"
  by (simp_all add: retired_def)



lemma triggerUpdateBuffer_userTimersOf [simp]:
  "userTimersOf (triggerUpdateBuffer u s) v = (if v = u then Map.empty else userTimersOf s v)"
  by (simp add: triggerUpdateBuffer_def Let_def)


section \<open>The end-update gate holds in every reachable state\<close>

lemma gateInv_initial: "gateInv initialServer"
  by (simp add: gateInv_def initialServer_def userTimersOf_def)

lemma gateInv_handleGroupComplete: "gateInv s \<Longrightarrow> gateInv (handleGroupComplete u g s)"
  by (auto simp: gateInv_def handleGroupComplete_def Let_def session_writers session_readers
      timer_starters)

lemma gateInv_handleBufferComplete: "gateInv s \<Longrightarrow> gateInv (handleBufferComplete u s)"
  by (auto simp: gateInv_def handleBufferComplete_def Let_def session_writers session_readers
      timer_starters getSocket_def split: option.splits)

lemma gateInv_sendNextBlock:
  assumes inv: "gateInv s"
  shows "gateInv (sendNextBlock u socket g b s)"
proof (cases "socketDead socket s")
  case True
  then show ?thesis using inv by (simp add: sendNextBlock_dead gateInv_def session_readers)
next
  case False
  then obtain sk where sk: "socket = Some sk" and live: "connected s sk"
    by (auto simp: socketDead_def split: option.splits)
  show ?thesis
  proof (cases "isBufferPaused u s")
    case True
    with live sk inv show ?thesis by (simp add: sendNextBlock_paused gateInv_def session_readers)
  next
    case np: False
    show ?thesis
    proof (cases "needsUpdate (getUpdateCheckState u s) \<and> \<not> waitingForGroup (getUpdateCheckState u s)")
      case True
      with live np sk inv show ?thesis
        by (simp add: sendNextBlock_interrupted gateInv_def session_readers)
    next
      case ni: False
      show ?thesis
      proof (cases "fst (getNextBlock u s)")
        case None
        let ?s3 = "(updSession u (\<lambda>x. x\<lparr> buffer := (buffer x)\<lparr> isComplete := True \<rparr> \<rparr>) s)
                 \<lparr> sendingTimeouts := (sendingTimeouts s)(u := None) \<rparr>"
        have "gateInv ?s3" using inv by (simp add: gateInv_def session_readers)
        then show ?thesis
          unfolding sk sendNextBlock_done[OF live np ni None]
          by (simp add: Let_def gateInv_handleBufferComplete)
      next
        case (Some blk)
        let ?s5 = "advanceBlock u (addAIMessage u (blockText blk)
                 (emit sk (AiBlock (blockText blk) (blockGroup blk)) (getSession u s)))"
        let ?s6 = "if getCurrentGroup u s \<noteq> getCurrentGroup u ?s5 \<and> g
                then handleGroupComplete u (getCurrentGroup u s) ?s5 else ?s5"
        have "gateInv ?s5" using inv by (simp add: gateInv_def session_readers session_writers Let_def)
        then have "gateInv ?s6" by (simp add: gateInv_handleGroupComplete)
        then show ?thesis
          unfolding sk sendNextBlock_emits[OF live np ni Some] Let_def
          by (simp add: gateInv_def setTimeout_def session_readers)
      qed
    qed
  qed
qed

lemma gateInv_startSendingBuffer: "gateInv s \<Longrightarrow> gateInv (startSendingBuffer u socket g b s)"
proof -
  assume inv: "gateInv s"
  have "gateInv (resumeBuffer u (stopSending u (s\<lparr> bufferSockets := bs \<rparr>)))" for bs
    using inv by (simp add: gateInv_def session_readers session_writers)
  then show ?thesis
    by (simp add: startSendingBuffer_def Let_def gateInv_sendNextBlock inv split: option.splits)
qed

lemma gateInv_triggerUpdateBuffer: "gateInv s \<Longrightarrow> gateInv (triggerUpdateBuffer u s)"
  by (simp add: gateInv_def triggerUpdateBuffer_def Let_def session_readers)

lemma gateInv_triggerUpdateBuffer_flag:
  "gateInv s \<Longrightarrow> gateInv (triggerUpdateBuffer u (setUserMessagedSinceEndUpdate u v s))"
  by (simp add: gateInv_def triggerUpdateBuffer_def Let_def session_readers session_writers)

lemma gateInv_triggerUpdateBuffer_resume:
  assumes inv: "gateInv s"
  shows "gateInv (triggerUpdateBuffer_resume u r s)"
proof (cases r)
  case (Inl msg)
  with inv show ?thesis
    by (simp add: triggerUpdateBuffer_resume_def gateInv_def session_readers getSocket_def
        split: option.splits)
next
  case (Inr newBlocks)
  have "gateInv (setWaitingForGroup u False (setUpdateCheckNeeded u False (setBuffer u newBlocks s)))"
    using inv by (simp add: gateInv_def session_readers session_writers)
  with Inr show ?thesis
    by (simp add: triggerUpdateBuffer_resume_def Let_def gateInv_startSendingBuffer
        split: option.splits)
qed

lemma gateInv_triggerUpdateCheck: "gateInv s \<Longrightarrow> gateInv (triggerUpdateCheck u s)"
  by (simp add: gateInv_def triggerUpdateCheck_def Let_def session_readers)

lemma gateInv_triggerUpdateCheck_resume:
  "gateInv s \<Longrightarrow> gateInv (triggerUpdateCheck_resume u a s)"
  by (auto simp: gateInv_def triggerUpdateCheck_resume_def Let_def session_readers session_writers
      timer_starters)

lemma gateInv_handleUserMessage: "gateInv s \<Longrightarrow> gateInv (handleUserMessage u m sk s)"
proof -
  assume inv: "gateInv s"
  let ?s8 = "setEndUpdateTimer u False (cancelEndUpdateTimer u (disableIdleTimer u
      (setTypingState u False (cancelTypingTimers u (setUserMessagedSinceEndUpdate u True
        (addUserMessage u m (registerSocket u sk s)))))))"
  have "gateInv ?s8"
    using inv
    by (auto simp: gateInv_def session_readers session_writers timer_cancels registerSocket_def)
  then show ?thesis
    by (simp add: handleUserMessage_def Let_def gateInv_triggerUpdateBuffer
        gateInv_triggerUpdateCheck)
qed

lemma gateInv_handleTypingStatus: "gateInv s \<Longrightarrow> gateInv (handleTypingStatus u t sk s)"
  by (auto simp: gateInv_def handleTypingStatus_def Let_def session_readers session_writers
      timer_cancels timer_starters registerSocket_def)

lemma gateInv_stopAIResponse: "gateInv s \<Longrightarrow> gateInv (stopAIResponse u socket s)"
  by (auto simp: gateInv_def stopAIResponse_def Let_def session_readers session_writers
      split: option.splits)

lemma gateInv_cleanup: "gateInv s \<Longrightarrow> gateInv (cleanup u s)"
  by (auto simp: gateInv_def cleanup_def Let_def timerCleanup_def bufferCleanup_def
      clearSession_def session_readers)

lemma gateInv_runCallback:
  assumes inv: "gateInv s" and off: "wellPaired t cb"
  shows "gateInv (runCallback cb u (timerFired u t s))"
proof -
  have fired: "gateInv (timerFired u t s)"
    using inv by (auto simp: gateInv_def timerFired_def session_readers)
  have dis: "gateInv (disableIdleTimer u (timerFired u t s))"
    using fired by (simp add: gateInv_def session_readers session_writers)
  show ?thesis
  proof (cases cb)
    case GroupDelayExpired
    with fired show ?thesis
      by (auto simp: gateInv_def Let_def session_readers session_writers timer_starters)
  qed (simp_all add: gateInv_triggerUpdateBuffer_flag fired dis)
qed

lemma gateInv_fireTimeout:
  assumes inv: "gateInv s" and sinv: "schedInv s"
  shows "gateInv (fireTimeout i s)"
proof (cases "scheduled s i")
  case None
  with inv show ?thesis by (simp add: fireTimeout_def)
next
  case (Some dc)
  obtain d c where dc: "dc = (d, c)" by (cases dc)
  have inv0: "gateInv (s\<lparr> scheduled := (scheduled s)(i := None) \<rparr>)"
    using inv by (simp add: gateInv_def session_readers)
  show ?thesis
  proof (cases c)
    case (TimerFire u t cb)
    with sinv Some dc have "wellPaired t cb" unfolding schedInv_def by fastforce
    with inv0 show ?thesis
      using Some dc TimerFire by (simp add: fireTimeout_def gateInv_runCallback)
  next
    case (PacerStep u sk g b)
    with inv0 show ?thesis
      using Some dc by (simp add: fireTimeout_def gateInv_sendNextBlock)
  qed
qed

lemma gateInv_step: "gateInv s \<Longrightarrow> schedInv s \<Longrightarrow> gateInv (step e s)"
proof (cases e)
  case (Connect u sk)
  assume "gateInv s"
  with Connect show ?thesis by (simp add: gateInv_def registerSocket_def session_readers)
next
  case (UserMessage u m sk)
  assume inv: "gateInv s"
  then have "gateInv (emit sk (MessageReceived m) s)" by (simp add: gateInv_def session_readers)
  with UserMessage inv show ?thesis by (simp add: gateInv_handleUserMessage)
next
  case (Disconnect u sk)
  assume inv: "gateInv s"
  then have "gateInv (s\<lparr> connected := (connected s)(sk := False) \<rparr>)"
    by (simp add: gateInv_def session_readers)
  with Disconnect inv show ?thesis by (simp add: gateInv_cleanup)
next
  case (CheckReturns n a)
  assume inv: "gateInv s"
  then have "gateInv (dropCall n s)" by (simp add: gateInv_def dropCall_def session_readers)
  with CheckReturns inv show ?thesis
    by (simp add: gateInv_triggerUpdateCheck_resume split: llmCall.splits)
next
  case (BufferReturns n r)
  assume inv: "gateInv s"
  then have "gateInv (dropCall n s)" by (simp add: gateInv_def dropCall_def session_readers)
  with BufferReturns inv show ?thesis
    by (simp add: gateInv_triggerUpdateBuffer_resume split: llmCall.splits)
qed (simp_all add: gateInv_handleTypingStatus gateInv_stopAIResponse gateInv_cleanup
       gateInv_fireTimeout)

lemma reachable_gateInv: "reachable s \<Longrightarrow> gateInv s"
  by (induction rule: reachable.induct)
     (simp_all add: gateInv_initial gateInv_step reachable_schedInv)

section \<open>A committed interrupt and the events that keep it\<close>

lemma handleGroupComplete_other:
  "v \<noteq> u \<Longrightarrow> theSession (handleGroupComplete v g s) u = theSession s u"
  by (simp add: handleGroupComplete_def Let_def session_writers timer_starters)

lemma handleBufferComplete_other:
  "v \<noteq> u \<Longrightarrow> theSession (handleBufferComplete v s) u = theSession s u"
  by (simp add: handleBufferComplete_def Let_def session_writers timer_starters
      split: option.splits)

lemma sendNextBlock_other:
  assumes ne: "v \<noteq> u"
  shows "theSession (sendNextBlock v socket g b s) u = theSession s u"
proof (cases "socketDead socket s")
  case True
  then show ?thesis by (simp add: sendNextBlock_dead)
next
  case False
  then obtain sk where sk: "socket = Some sk" and live: "connected s sk"
    by (auto simp: socketDead_def split: option.splits)
  show ?thesis
  proof (cases "isBufferPaused v s")
    case True
    with live sk show ?thesis by (simp add: sendNextBlock_paused)
  next
    case np: False
    show ?thesis
    proof (cases "needsUpdate (getUpdateCheckState v s) \<and> \<not> waitingForGroup (getUpdateCheckState v s)")
      case True
      with live np sk show ?thesis by (simp add: sendNextBlock_interrupted)
    next
      case ni: False
      show ?thesis
      proof (cases "fst (getNextBlock v s)")
        case None
        show ?thesis
          unfolding sk sendNextBlock_done[OF live np ni None]
          using ne by (simp add: Let_def handleBufferComplete_other)
      next
        case (Some blk)
        show ?thesis
          unfolding sk sendNextBlock_emits[OF live np ni Some]
          using ne by (simp add: Let_def handleGroupComplete_other setTimeout_def session_writers)
      qed
    qed
  qed
qed

lemma pacerView_triggerUpdateBuffer [simp]:
  "pacerView (triggerUpdateBuffer v s) u = pacerView s u"
  by (simp add: pacerView_def triggerUpdateBuffer_def Let_def)

lemma pacerView_triggerUpdateCheck [simp]:
  "pacerView (triggerUpdateCheck v s) u = pacerView s u"
  by (simp add: pacerView_def triggerUpdateCheck_def Let_def)

lemma pacerView_handleUserMessage: "pacerView (handleUserMessage v m sk s) u = pacerView s u"
proof -
  have "pacerView (setEndUpdateTimer v False (cancelEndUpdateTimer v (disableIdleTimer v
      (setTypingState v False (cancelTypingTimers v (setUserMessagedSinceEndUpdate v True
        (addUserMessage v m (registerSocket v sk s)))))))) u = pacerView s u"
    by (simp add: pacerView_def session_writers timer_cancels registerSocket_def)
  then show ?thesis by (simp add: handleUserMessage_def Let_def)
qed

lemma pacerView_handleTypingStatus: "pacerView (handleTypingStatus v t sk s) u = pacerView s u"
  by (simp add: pacerView_def handleTypingStatus_def Let_def session_writers session_readers
      timer_cancels timer_starters registerSocket_def)

lemma pacerView_stopAIResponse: "pacerView (stopAIResponse v socket s) u = pacerView s u"
  by (simp add: pacerView_def stopAIResponse_def Let_def session_writers split: option.splits)

lemma pacerView_cleanup: "v \<noteq> u \<Longrightarrow> pacerView (cleanup v s) u = pacerView s u"
  by (simp add: pacerView_def cleanup_def Let_def timerCleanup_def bufferCleanup_def
      clearSession_def)

lemma pacerView_runCallback: "pacerView (runCallback cb v (timerFired v t s)) u = pacerView s u"
proof -
  have a: "pacerView (setUserMessagedSinceEndUpdate v False (timerFired v t s)) u = pacerView s u"
    "pacerView (setUserMessagedSinceEndUpdate v False (disableIdleTimer v (timerFired v t s))) u
       = pacerView s u"
    by (simp_all add: pacerView_def session_writers timerFired_def)
  show ?thesis
  proof (cases cb)
    case GroupDelayExpired
    then show ?thesis
      by (simp add: pacerView_def Let_def session_writers session_readers timer_starters
          timerFired_def)
  qed (simp_all add: a)
qed

lemma pacerView_sendNextBlock:
  assumes "v = u \<longrightarrow> needsUpdate (getUpdateCheckState u s) \<and> \<not> waitingForGroup (getUpdateCheckState u s)"
  shows "pacerView (sendNextBlock v socket g b s) u = pacerView s u"
proof (cases "v = u")
  case False
  then show ?thesis by (simp add: pacerView_def sendNextBlock_other)
next
  case True
  with assms have c: "needsUpdate (getUpdateCheckState u s)"
    "\<not> waitingForGroup (getUpdateCheckState u s)" by simp_all
  have "theSession (sendNextBlock u socket g b s) = theSession s"
  proof (cases "socketDead socket s")
    case True
    then show ?thesis by (simp add: sendNextBlock_dead)
  next
    case False
    then obtain sk where sk: "socket = Some sk" and live: "connected s sk"
      by (auto simp: socketDead_def split: option.splits)
    show ?thesis
    proof (cases "isBufferPaused u s")
      case True
      with live sk show ?thesis by (simp add: sendNextBlock_paused)
    next
      case False
      with live sk c show ?thesis by (simp add: sendNextBlock_interrupted)
    qed
  qed
  with True show ?thesis by (simp add: pacerView_def)
qed

section \<open>A user who is not sending stays so until blocks are installed\<close>

lemma handleBufferComplete_fields [simp]:
  "sendingTimeouts (handleBufferComplete u s) = sendingTimeouts s"
  "bufferSockets (handleBufferComplete u s) = bufferSockets s"
  "userSockets (handleBufferComplete u s) = userSockets s"
  "connected (handleBufferComplete u s) = connected s"
  "awaiting (handleBufferComplete u s) = awaiting s"
  by (simp_all add: handleBufferComplete_def Let_def session_writers timer_starters getSocket_def
      split: option.splits)

lemma sendNextBlock_sendingTimeouts_other:
  assumes ne: "v \<noteq> u"
  shows "sendingTimeouts (sendNextBlock v socket g b s) u = sendingTimeouts s u"
proof (cases "socketDead socket s")
  case True
  then show ?thesis using ne by (simp add: sendNextBlock_dead)
next
  case False
  then obtain sk where sk: "socket = Some sk" and live: "connected s sk"
    by (auto simp: socketDead_def split: option.splits)
  show ?thesis
  proof (cases "isBufferPaused v s")
    case True
    with live sk show ?thesis by (simp add: sendNextBlock_paused)
  next
    case np: False
    show ?thesis
    proof (cases "needsUpdate (getUpdateCheckState v s) \<and> \<not> waitingForGroup (getUpdateCheckState v s)")
      case True
      with live np sk ne show ?thesis by (simp add: sendNextBlock_interrupted)
    next
      case ni: False
      show ?thesis
      proof (cases "fst (getNextBlock v s)")
        case None
        show ?thesis
          unfolding sk sendNextBlock_done[OF live np ni None]
          using ne by (simp add: Let_def)
      next
        case (Some blk)
        show ?thesis
          unfolding sk sendNextBlock_emits[OF live np ni Some]
          using ne by (simp add: Let_def setTimeout_def session_writers)
      qed
    qed
  qed
qed

lemma startSendingBuffer_sendingTimeouts_other:
  "v \<noteq> u \<Longrightarrow> sendingTimeouts (startSendingBuffer v socket g b s) u = sendingTimeouts s u"
  by (simp add: startSendingBuffer_def Let_def sendNextBlock_sendingTimeouts_other session_writers
      split: option.splits)

lemma startSendingBuffer_other:
  "v \<noteq> u \<Longrightarrow> theSession (startSendingBuffer v socket g b s) u = theSession s u"
  by (simp add: startSendingBuffer_def Let_def sendNextBlock_other session_writers
      split: option.splits)

lemma triggerUpdateBuffer_sendingTimeouts [simp]:
  "sendingTimeouts (triggerUpdateBuffer v s) = (sendingTimeouts s)(v := None)"
  by (simp add: triggerUpdateBuffer_def Let_def)

lemma triggerUpdateCheck_sendingTimeouts [simp]:
  "sendingTimeouts (triggerUpdateCheck v s) = sendingTimeouts s"
  by (simp add: triggerUpdateCheck_def Let_def)

lemma notSending_triggerUpdateCheck_resume:
  "sendingTimeouts s u = None \<Longrightarrow> sendingTimeouts (triggerUpdateCheck_resume v a s) u = None"
  by (simp add: triggerUpdateCheck_resume_def Let_def session_writers timer_starters)

lemma notSending_handleUserMessage:
  "sendingTimeouts s u = None \<Longrightarrow> sendingTimeouts (handleUserMessage v m sk s) u = None"
  by (simp add: handleUserMessage_def Let_def session_writers timer_cancels registerSocket_def)

lemma handleTypingStatus_sendingTimeouts [simp]:
  "sendingTimeouts (handleTypingStatus v t sk s) = sendingTimeouts s"
  by (simp add: handleTypingStatus_def Let_def session_writers session_readers timer_cancels
      timer_starters registerSocket_def)

lemma stopAIResponse_sendingTimeouts [simp]:
  "sendingTimeouts (stopAIResponse v socket s) = (sendingTimeouts s)(v := None)"
  by (simp add: stopAIResponse_def Let_def session_writers split: option.splits)

lemma cleanup_sendingTimeouts [simp]:
  "sendingTimeouts (cleanup v s) = (sendingTimeouts s)(v := None)"
  by (simp add: cleanup_def Let_def timerCleanup_def bufferCleanup_def clearSession_def)

lemma notSending_runCallback:
  "sendingTimeouts s u = None \<Longrightarrow> sendingTimeouts (runCallback cb v (timerFired v t s)) u = None"
  by (cases cb) (simp_all add: Let_def session_writers session_readers timer_starters timerFired_def)

lemma notSending_triggerUpdateBuffer_resume:
  assumes "sendingTimeouts s u = None" and "v = u \<longrightarrow> (\<exists>msg. r = Inl msg)"
  shows "sendingTimeouts (triggerUpdateBuffer_resume v r s) u = None"
proof (cases r)
  case (Inl msg)
  with assms(1) show ?thesis
    by (simp add: triggerUpdateBuffer_resume_def getSocket_def split: option.splits)
next
  case (Inr newBlocks)
  with assms(2) have ne: "v \<noteq> u" by auto
  with Inr assms(1) show ?thesis
    by (simp add: triggerUpdateBuffer_resume_def Let_def startSendingBuffer_sendingTimeouts_other
        session_writers split: option.splits)
qed

lemma notSending_noChain: "schedInv s \<Longrightarrow> sendingTimeouts s u = None \<Longrightarrow> noChain u s"
  unfolding schedInv_def noChain_def by fastforce

lemma notSending_fireTimeout:
  assumes inv: "schedInv s" and ns: "sendingTimeouts s u = None"
  shows "sendingTimeouts (fireTimeout i s) u = None"
proof (cases "scheduled s i")
  case None
  with ns show ?thesis by (simp add: fireTimeout_def)
next
  case (Some dc)
  obtain d c where dc: "dc = (d, c)" by (cases dc)
  show ?thesis
  proof (cases c)
    case (TimerFire v t cb)
    have "sendingTimeouts (s\<lparr> scheduled := (scheduled s)(i := None) \<rparr>) u = None" using ns by simp
    then show ?thesis
      using Some dc TimerFire by (simp add: fireTimeout_def notSending_runCallback)
  next
    case (PacerStep v sk g b)
    from inv Some dc PacerStep have "sendingTimeouts s v = Some i"
      unfolding schedInv_def by fastforce
    with ns have "v \<noteq> u" by auto
    then show ?thesis
      using Some dc PacerStep ns
      by (simp add: fireTimeout_def sendNextBlock_sendingTimeouts_other)
  qed
qed

lemma notSending_step:
  assumes inv: "schedInv s" and ns: "sendingTimeouts s u = None"
    and ni: "\<not> installsBufferOf u e s"
  shows "sendingTimeouts (step e s) u = None"
proof (cases e)
  case (Connect v sk)
  with ns show ?thesis by (simp add: registerSocket_def)
next
  case (UserMessage v m sk)
  have "sendingTimeouts (emit sk (MessageReceived m) s) u = None" using ns by simp
  with UserMessage ns show ?thesis by (simp add: notSending_handleUserMessage)
next
  case (TypingStatus v t sk)
  with ns show ?thesis by simp
next
  case (StopAiResponse v sk)
  with ns show ?thesis by simp
next
  case (EndChat v sk)
  with ns show ?thesis by simp
next
  case (Disconnect v sk)
  with ns show ?thesis by simp
next
  case (Timeout i)
  with inv ns show ?thesis by (simp add: notSending_fireTimeout)
next
  case (CheckReturns n a)
  have "sendingTimeouts (dropCall n s) u = None" using ns by (simp add: dropCall_def)
  with CheckReturns ns show ?thesis
    by (simp add: notSending_triggerUpdateCheck_resume split: llmCall.splits)
next
  case (BufferReturns n r)
  show ?thesis
  proof (cases "n < length (awaiting s)")
    case False
    with BufferReturns ns show ?thesis by simp
  next
    case True
    show ?thesis
    proof (cases "awaiting s ! n")
      case (UpdateCheckCall v h bs i)
      with BufferReturns True ns show ?thesis by simp
    next
      case (UpdateBufferCall v h bs)
      have d: "sendingTimeouts (dropCall n s) u = None" using ns by (simp add: dropCall_def)
      have "v = u \<longrightarrow> (\<exists>msg. r = Inl msg)"
        using ni BufferReturns True UpdateBufferCall
        by (cases r) (simp_all add: installsBufferOf_def)
      with d have "sendingTimeouts (triggerUpdateBuffer_resume v r (dropCall n s)) u = None"
        by (rule notSending_triggerUpdateBuffer_resume)
      with BufferReturns True UpdateBufferCall show ?thesis by simp
    qed
  qed
qed

lemma alongRun_append:
  "alongRun P (es @ es') s = (alongRun P es s \<and> alongRun P es' (run es s))"
  by (induction es arbitrary: s) (simp_all add: run_def)

lemma notSending_run:
  assumes "schedInv s" and "sendingTimeouts s u = None"
    and "alongRun (\<lambda>e s. \<not> installsBufferOf u e s) es s"
  shows "sendingTimeouts (run es s) u = None"
  using assms
proof (induction es arbitrary: s)
  case Nil
  then show ?case by (simp add: run_def)
next
  case (Cons e es)
  from Cons.prems have "sendingTimeouts (step e s) u = None"
    by (intro notSending_step) simp_all
  moreover have "schedInv (step e s)" using Cons.prems(1) by (rule schedInv_step)
  ultimately have "sendingTimeouts (run es (step e s)) u = None"
    using Cons.prems(3) by (intro Cons.IH) simp_all
  then show ?case by (simp add: run_def)
qed

section \<open>A committed interrupt stays until a check of the user returns\<close>

lemma pacerView_dropCall [simp]: "pacerView (dropCall n s) u = pacerView s u"
  by (simp add: pacerView_def dropCall_def)

lemma pacerView_triggerUpdateCheck_resume_other:
  "v \<noteq> u \<Longrightarrow> pacerView (triggerUpdateCheck_resume v a s) u = pacerView s u"
  by (simp add: pacerView_def triggerUpdateCheck_resume_def Let_def session_writers timer_starters)

lemma pacerView_triggerUpdateBuffer_resume:
  assumes "v = u \<longrightarrow> (\<exists>msg. r = Inl msg)"
  shows "pacerView (triggerUpdateBuffer_resume v r s) u = pacerView s u"
proof (cases r)
  case (Inl msg)
  then show ?thesis
    by (simp add: pacerView_def triggerUpdateBuffer_resume_def getSocket_def split: option.splits)
next
  case (Inr newBlocks)
  with assms have ne: "v \<noteq> u" by auto
  with Inr show ?thesis
    by (simp add: pacerView_def triggerUpdateBuffer_resume_def Let_def startSendingBuffer_other
        session_writers split: option.splits)
qed

text \<open>A step taken while the interrupt is committed keeps the flags, the blocks and the
  cursor, or ends the user's session, which stops the pacer.\<close>

lemma committed_step:
  assumes c: "needsUpdate (getUpdateCheckState u s)" "\<not> waitingForGroup (getUpdateCheckState u s)"
    and nc: "\<not> returnsCheckOf u e s" and ni: "\<not> installsBufferOf u e s"
  shows "pacerView (step e s) u = pacerView s u \<or> sendingTimeouts (step e s) u = None"
proof (cases e)
  case (Connect v sk)
  then show ?thesis by (simp add: pacerView_def registerSocket_def)
next
  case (UserMessage v m sk)
  have "pacerView (emit sk (MessageReceived m) s) u = pacerView s u" by (simp add: pacerView_def)
  with UserMessage show ?thesis by (simp add: pacerView_handleUserMessage)
next
  case (TypingStatus v t sk)
  then show ?thesis by (simp add: pacerView_handleTypingStatus)
next
  case (StopAiResponse v sk)
  then show ?thesis by (simp add: pacerView_stopAIResponse)
next
  case (EndChat v sk)
  then show ?thesis
    by (cases "v = u") (simp_all add: pacerView_cleanup pacerView_stopAIResponse)
next
  case (Disconnect v sk)
  have "pacerView (s\<lparr> connected := (connected s)(sk := False) \<rparr>) u = pacerView s u"
    by (simp add: pacerView_def)
  with Disconnect show ?thesis by (cases "v = u") (simp_all add: pacerView_cleanup)
next
  case (Timeout i)
  show ?thesis
  proof (cases "scheduled s i")
    case None
    with Timeout show ?thesis by (simp add: fireTimeout_def)
  next
    case (Some dc)
    obtain d cl where dc: "dc = (d, cl)" by (cases dc)
    let ?s0 = "s\<lparr> scheduled := (scheduled s)(i := None) \<rparr>"
    have v0: "pacerView ?s0 u = pacerView s u" by (simp add: pacerView_def)
    show ?thesis
    proof (cases cl)
      case (TimerFire v t cb)
      with Timeout Some dc v0 show ?thesis
        by (simp add: fireTimeout_def pacerView_runCallback)
    next
      case (PacerStep v sk g b)
      have "pacerView (sendNextBlock v sk g b ?s0) u = pacerView ?s0 u"
        using c by (intro pacerView_sendNextBlock) (simp add: session_readers)
      with Timeout Some dc PacerStep v0 show ?thesis by (simp add: fireTimeout_def)
    qed
  qed
next
  case (CheckReturns n a)
  show ?thesis
  proof (cases "n < length (awaiting s)")
    case False
    with CheckReturns show ?thesis by simp
  next
    case True
    show ?thesis
    proof (cases "awaiting s ! n")
      case (UpdateCheckCall v h bs i)
      with nc CheckReturns True have "v \<noteq> u" by (simp add: returnsCheckOf_def)
      with CheckReturns True UpdateCheckCall show ?thesis
        by (simp add: pacerView_triggerUpdateCheck_resume_other)
    next
      case (UpdateBufferCall v h bs)
      with CheckReturns True show ?thesis by simp
    qed
  qed
next
  case (BufferReturns n r)
  show ?thesis
  proof (cases "n < length (awaiting s)")
    case False
    with BufferReturns show ?thesis by simp
  next
    case True
    show ?thesis
    proof (cases "awaiting s ! n")
      case (UpdateCheckCall v h bs i)
      with BufferReturns True show ?thesis by simp
    next
      case (UpdateBufferCall v h bs)
      have "v = u \<longrightarrow> (\<exists>msg. r = Inl msg)"
        using ni BufferReturns True UpdateBufferCall
        by (cases r) (simp_all add: installsBufferOf_def)
      then have "pacerView (triggerUpdateBuffer_resume v r (dropCall n s)) u = pacerView s u"
        by (simp add: pacerView_triggerUpdateBuffer_resume)
      with BufferReturns True UpdateBufferCall show ?thesis by simp
    qed
  qed
qed

lemma firesStepOfE:
  assumes "firesStepOf u e s"
  obtains i d socket g b where "e = Timeout i"
    and "scheduled s i = Some (d, PacerStep u socket g b)"
proof (cases e)
  case (Timeout i)
  with assms obtain d c where sch: "scheduled s i = Some (d, c)"
    by (cases "scheduled s i") (auto simp: firesStepOf_def)
  with assms Timeout have "\<exists>socket g b. c = PacerStep u socket g b"
    by (cases c) (simp_all add: firesStepOf_def)
  with sch Timeout that show ?thesis by blast
qed (use assms in \<open>simp_all add: firesStepOf_def\<close>)

text \<open>A pacer step of the user that fires while the interrupt is committed.\<close>

lemma committed_pacer_step_silent:
  assumes c: "needsUpdate (getUpdateCheckState u s)" "\<not> waitingForGroup (getUpdateCheckState u s)"
    and f: "firesStepOf u e s"
  shows "emitted (step e s) = emitted s \<and> calls (step e s) = calls s
       \<and> theSession (step e s) = theSession s"
proof -
  from f obtain i d socket g b where e: "e = Timeout i"
    and sch: "scheduled s i = Some (d, PacerStep u socket g b)"
    by (rule firesStepOfE)
  let ?s0 = "s\<lparr> scheduled := (scheduled s)(i := None) \<rparr>"
  have st: "step e s = sendNextBlock u socket g b ?s0"
    using e sch by (simp add: fireTimeout_def)
  have c0: "needsUpdate (getUpdateCheckState u ?s0)" "\<not> waitingForGroup (getUpdateCheckState u ?s0)"
    using c by (simp_all add: session_readers)
  have "emitted (sendNextBlock u socket g b ?s0) = emitted ?s0
      \<and> calls (sendNextBlock u socket g b ?s0) = calls ?s0
      \<and> theSession (sendNextBlock u socket g b ?s0) = theSession ?s0"
  proof (cases "socketDead socket ?s0")
    case True
    then show ?thesis by (simp add: sendNextBlock_dead)
  next
    case False
    then obtain sk where sk: "socket = Some sk" and live: "connected ?s0 sk"
      by (auto simp: socketDead_def split: option.splits)
    show ?thesis
    proof (cases "isBufferPaused u ?s0")
      case True
      with live sk show ?thesis by (simp add: sendNextBlock_paused)
    next
      case False
      with live sk c0 show ?thesis by (simp add: sendNextBlock_interrupted)
    qed
  qed
  then show ?thesis by (simp add: st)
qed

lemma committed_run:
  assumes inv: "schedInv s"
    and keep: "pacerView s u = pv \<or> sendingTimeouts s u = None"
    and pv: "needsUpdate (fst pv)" "\<not> waitingForGroup (fst pv)"
    and ok: "alongRun (\<lambda>e s. \<not> returnsCheckOf u e s \<and> \<not> installsBufferOf u e s) es s"
  shows "alongRun (\<lambda>e s. firesStepOf u e s \<longrightarrow>
            emitted (step e s) = emitted s \<and> calls (step e s) = calls s
            \<and> theSession (step e s) = theSession s) es s
       \<and> (pacerView (run es s) u = pv \<or> sendingTimeouts (run es s) u = None)
       \<and> schedInv (run es s)"
  using inv keep ok
proof (induction es arbitrary: s)
  case Nil
  then show ?case by (simp add: run_def)
next
  case (Cons e es)
  from Cons.prems(3) have nc: "\<not> returnsCheckOf u e s" and ni: "\<not> installsBufferOf u e s"
    and rest: "alongRun (\<lambda>e s. \<not> returnsCheckOf u e s \<and> \<not> installsBufferOf u e s) es (step e s)"
    by simp_all
  have inv': "schedInv (step e s)" using Cons.prems(1) by (rule schedInv_step)
  have keep': "pacerView (step e s) u = pv \<or> sendingTimeouts (step e s) u = None"
    and silent: "firesStepOf u e s \<longrightarrow>
            emitted (step e s) = emitted s \<and> calls (step e s) = calls s
            \<and> theSession (step e s) = theSession s"
  proof -
    show "pacerView (step e s) u = pv \<or> sendingTimeouts (step e s) u = None"
    proof (cases "sendingTimeouts s u = None")
      case True
      with Cons.prems(1) ni show ?thesis by (simp add: notSending_step)
    next
      case False
      with Cons.prems(2) have v: "pacerView s u = pv" by simp
      with pv have "needsUpdate (getUpdateCheckState u s)"
        "\<not> waitingForGroup (getUpdateCheckState u s)"
        by (auto simp: pacerView_def getUpdateCheckState_def)
      from committed_step[OF this nc ni] v show ?thesis by simp
    qed
    show "firesStepOf u e s \<longrightarrow>
            emitted (step e s) = emitted s \<and> calls (step e s) = calls s
            \<and> theSession (step e s) = theSession s"
    proof
      assume f: "firesStepOf u e s"
      then obtain i d socket g b where "scheduled s i = Some (d, PacerStep u socket g b)"
        by (rule firesStepOfE)
      with Cons.prems(1) have "sendingTimeouts s u = Some i"
        unfolding schedInv_def by fastforce
      with Cons.prems(2) have v: "pacerView s u = pv" by simp
      with pv have "needsUpdate (getUpdateCheckState u s)"
        "\<not> waitingForGroup (getUpdateCheckState u s)"
        by (auto simp: pacerView_def getUpdateCheckState_def)
      from committed_pacer_step_silent[OF this f]
      show "emitted (step e s) = emitted s \<and> calls (step e s) = calls s
            \<and> theSession (step e s) = theSession s" .
    qed
  qed
  from Cons.IH[OF inv' keep' rest] silent show ?case by (simp add: run_def)
qed

section \<open>The pacer never changes the blocks of a buffer\<close>

lemma handleBufferComplete_blocks [simp]:
  "blocks (buffer (theSession (handleBufferComplete v s) u)) = blocks (buffer (theSession s u))"
  by (simp add: handleBufferComplete_def Let_def session_writers timer_starters
      split: option.splits)

lemma sendNextBlock_blocks:
  "blocks (buffer (theSession (sendNextBlock v socket g b s) u)) = blocks (buffer (theSession s u))"
proof (cases "socketDead socket s")
  case True
  then show ?thesis by (simp add: sendNextBlock_dead)
next
  case False
  then obtain sk where sk: "socket = Some sk" and live: "connected s sk"
    by (auto simp: socketDead_def split: option.splits)
  show ?thesis
  proof (cases "isBufferPaused v s")
    case True
    with live sk show ?thesis by (simp add: sendNextBlock_paused)
  next
    case np: False
    show ?thesis
    proof (cases "needsUpdate (getUpdateCheckState v s) \<and> \<not> waitingForGroup (getUpdateCheckState v s)")
      case True
      with live np sk show ?thesis by (simp add: sendNextBlock_interrupted)
    next
      case ni: False
      show ?thesis
      proof (cases "fst (getNextBlock v s)")
        case None
        show ?thesis
          unfolding sk sendNextBlock_done[OF live np ni None]
          by (simp add: Let_def)
      next
        case (Some blk)
        show ?thesis
          unfolding sk sendNextBlock_emits[OF live np ni Some]
          by (simp add: Let_def setTimeout_def session_writers)
      qed
    qed
  qed
qed

lemma triggerUpdateBuffer_resume_installs:
  "blocks (buffer (theSession (triggerUpdateBuffer_resume u (Inr newBlocks) s) u)) = newBlocks"
  by (simp add: triggerUpdateBuffer_resume_def Let_def startSendingBuffer_def sendNextBlock_blocks
      session_writers split: option.splits)

section \<open>Lines and indices\<close>

lemma join_lines: "join [c] xs = butlast (concat (map (\<lambda>x. x @ [c]) xs))"
proof (induction "[c]" xs rule: join.induct)
  case 1
  then show ?case by simp
next
  case (2 x)
  then show ?case by simp
next
  case (3 x y ys)
  have "concat (map (\<lambda>x. x @ [c]) (y # ys)) \<noteq> []" by simp
  then have "butlast (x @ [c] @ concat (map (\<lambda>x. x @ [c]) (y # ys)))
      = x @ [c] @ butlast (concat (map (\<lambda>x. x @ [c]) (y # ys)))"
    by (simp add: butlast_append)
  with 3 show ?case by simp
qed

lemma take_by_index: "take n xs = map (\<lambda>j. xs ! j) [0 ..< min n (length xs)]"
  by (rule nth_equalityI) simp_all

lemma drop_by_index: "drop n xs = map (\<lambda>j. xs ! j) [n ..< length xs]"
  by (rule nth_equalityI) simp_all

section \<open>Evaluating concrete runs\<close>

lemmas exec_defs = initialServer_def run_def sendingTrace_def interruptTrace_def typingTrace_def
  disconnectTrace_def failureTrace_def blockA_def blockB_def blockC_def
  theSession_def getSession_def updSession_def session_writers session_readers newSession_def
  getNextBlock_def clearSession_def
  userTimersOf_def getUserTimers_def clearTimer_def setTimer_def timer_starters cancelAllTimers_def
  timer_cancels isTimerActive_def timerCleanup_def setTimeout_def clearTimeout_def emit_def
  stopSending_def isSending_def sendNextBlock_def startSendingBuffer_def bufferCleanup_def
  timeoutDelay_blockDelay socketDead_def
  handleGroupComplete_def getSocket_def handleBufferComplete_def registerSocket_def
  triggerUpdateBuffer_def triggerUpdateBuffer_resume_def triggerUpdateCheck_def
  triggerUpdateCheck_resume_def handleUserMessage_def handleTypingStatus_def stopAIResponse_def
  cleanup_def timerFired_def fireTimeout_def dropCall_def scheduledStepDelay_def timerStarted_def
  Let_def

lemma sendingTrace_runs: "run sendingTrace initialServer = sendingServer"
  by (simp add: sendingServer_def exec_defs del: theSession_fold userTimersOf_fold
      cong: let_weak_cong)

lemma interruptTrace_runs: "run interruptTrace initialServer = committedServer"
  by (simp add: committedServer_def exec_defs del: theSession_fold userTimersOf_fold
      cong: let_weak_cong)

lemma reachable_sendingServer: "reachable sendingServer"
  using reachable_run[OF reachable_init, of sendingTrace] by (simp add: sendingTrace_runs)

lemma reachable_committedServer: "reachable committedServer"
  using reachable_run[OF reachable_init, of interruptTrace] by (simp add: interruptTrace_runs)

section \<open>C1: the pacer step after a committed interrupt\<close>

text \<open>
  The step of the pacer under a committed interrupt, and the runs along which the interrupt
  stays committed.  Whenever the pacer's emission step runs while \<open>needsUpdate\<close> is set and
  \<open>waitingForGroup\<close> is clear, it exits before reading a block: nothing is emitted, no
  callback runs, the session is untouched, no timeout is handed out or added, and (unless the
  buffer is paused) the user is no longer sending.  This holds for every socket argument.
  Along every run from such a state in which no relevance check of the same user returns,
  and up to the regeneration that installs the user's new buffer, every step of the user's
  pacer that fires is silent in this way, and at the end of the run either the flags, the
  blocks and the cursor of the user are what they were, or the user is not sending and no
  step of the pacer is scheduled for the user (the session was ended).  Calls returning for
  other users, failed generations, timers, messages, typing events and the end of the
  session are all events of such a run.
\<close>

theorem interrupted_step_is_silent:
  assumes "reachable s"
    and "needsUpdate (getUpdateCheckState u s)"
    and "\<not> waitingForGroup (getUpdateCheckState u s)"
  shows "emitted (sendNextBlock u socket g b s) = emitted s
       \<and> calls (sendNextBlock u socket g b s) = calls s
       \<and> theSession (sendNextBlock u socket g b s) = theSession s
       \<and> nextTimeoutId (sendNextBlock u socket g b s) = nextTimeoutId s
       \<and> (\<forall>i. scheduled (sendNextBlock u socket g b s) i \<noteq> None \<longrightarrow>
               scheduled (sendNextBlock u socket g b s) i = scheduled s i)
       \<and> (\<not> isBufferPaused u s \<longrightarrow> \<not> isSending u (sendNextBlock u socket g b s))
       \<and> (alongRun (\<lambda>e s. \<not> returnsCheckOf u e s \<and> \<not> installsBufferOf u e s) es s \<longrightarrow>
            alongRun (\<lambda>e s. firesStepOf u e s \<longrightarrow>
                        emitted (step e s) = emitted s \<and> calls (step e s) = calls s
                        \<and> theSession (step e s) = theSession s) es s
            \<and> (pacerView (run es s) u = pacerView s u
                \<or> \<not> isSending u (run es s) \<and> noChain u (run es s)))"
proof -
  have step: "emitted (sendNextBlock u socket g b s) = emitted s
       \<and> calls (sendNextBlock u socket g b s) = calls s
       \<and> theSession (sendNextBlock u socket g b s) = theSession s
       \<and> nextTimeoutId (sendNextBlock u socket g b s) = nextTimeoutId s
       \<and> (\<forall>i. scheduled (sendNextBlock u socket g b s) i \<noteq> None \<longrightarrow>
               scheduled (sendNextBlock u socket g b s) i = scheduled s i)
       \<and> (\<not> isBufferPaused u s \<longrightarrow> \<not> isSending u (sendNextBlock u socket g b s))"
  proof (cases "socketDead socket s")
    case True
    then show ?thesis by (auto simp: sendNextBlock_dead isSending_def split: option.splits)
  next
    case False
    then obtain sk where sk: "socket = Some sk" and live: "connected s sk"
      by (auto simp: socketDead_def split: option.splits)
    show ?thesis
    proof (cases "isBufferPaused u s")
      case True
      with live sk show ?thesis by (simp add: sendNextBlock_paused)
    next
      case False
      with live sk assms(2,3) show ?thesis by (simp add: sendNextBlock_interrupted isSending_def)
    qed
  qed
  have run: "alongRun (\<lambda>e s. firesStepOf u e s \<longrightarrow>
                        emitted (step e s) = emitted s \<and> calls (step e s) = calls s
                        \<and> theSession (step e s) = theSession s) es s
            \<and> (pacerView (run es s) u = pacerView s u
                \<or> \<not> isSending u (run es s) \<and> noChain u (run es s))"
    if ok: "alongRun (\<lambda>e s. \<not> returnsCheckOf u e s \<and> \<not> installsBufferOf u e s) es s"
  proof -
    have inv: "schedInv s" using assms(1) by (rule reachable_schedInv)
    have pv: "needsUpdate (fst (pacerView s u))" "\<not> waitingForGroup (fst (pacerView s u))"
      using assms(2,3) by (simp_all add: pacerView_def getUpdateCheckState_def)
    have keep: "pacerView s u = pacerView s u \<or> sendingTimeouts s u = None" by simp
    from committed_run[OF inv keep pv ok]
    have a: "alongRun (\<lambda>e s. firesStepOf u e s \<longrightarrow>
            emitted (step e s) = emitted s \<and> calls (step e s) = calls s
            \<and> theSession (step e s) = theSession s) es s"
      and b: "pacerView (run es s) u = pacerView s u \<or> sendingTimeouts (run es s) u = None"
      and c: "schedInv (run es s)"
      by simp_all
    from b c have "pacerView (run es s) u = pacerView s u
        \<or> \<not> isSending u (run es s) \<and> noChain u (run es s)"
      by (auto simp: isSending_def notSending_noChain)
    with a show ?thesis by simp
  qed
  from step run show ?thesis by simp
qed

text \<open>The theorem at the state reached by \<open>interruptTrace\<close>, where block c of group 2 is
  next and the interrupt is committed.  In the first run the user's pacer step fires, another
  user is served, and a generation of the user fails; in the second the user disconnects.\<close>

theorem interrupted_step_is_silent_witness:
  "reachable committedServer
   \<and> needsUpdate (getUpdateCheckState ''u'' committedServer)
   \<and> \<not> waitingForGroup (getUpdateCheckState ''u'' committedServer)
   \<and> \<not> isBufferPaused ''u'' committedServer
   \<and> emitted (sendNextBlock ''u'' (Some 7) True True committedServer) = emitted committedServer
   \<and> \<not> isSending ''u'' (sendNextBlock ''u'' (Some 7) True True committedServer)
   \<and> alongRun (\<lambda>e s. \<not> returnsCheckOf ''u'' e s \<and> \<not> installsBufferOf ''u'' e s)
        [Timeout 2, Connect ''v'' 8, UserMessage ''v'' ''yo'' 8, BufferReturns 0 (Inr [blockA]),
         UserMessage ''u'' ''ok'' 7, BufferReturns 0 (Inl ''overloaded'')] committedServer
   \<and> firesStepOf ''u'' (Timeout 2) committedServer
   \<and> emitted (step (Timeout 2) committedServer) = emitted committedServer
   \<and> (pacerView (run [Timeout 2, Connect ''v'' 8, UserMessage ''v'' ''yo'' 8,
                      BufferReturns 0 (Inr [blockA]), UserMessage ''u'' ''ok'' 7,
                      BufferReturns 0 (Inl ''overloaded'')] committedServer) ''u''
         = pacerView committedServer ''u''
       \<or> \<not> isSending ''u'' (run [Timeout 2, Connect ''v'' 8, UserMessage ''v'' ''yo'' 8,
                      BufferReturns 0 (Inr [blockA]), UserMessage ''u'' ''ok'' 7,
                      BufferReturns 0 (Inl ''overloaded'')] committedServer)
         \<and> noChain ''u'' (run [Timeout 2, Connect ''v'' 8, UserMessage ''v'' ''yo'' 8,
                      BufferReturns 0 (Inr [blockA]), UserMessage ''u'' ''ok'' 7,
                      BufferReturns 0 (Inl ''overloaded'')] committedServer))
   \<and> alongRun (\<lambda>e s. \<not> returnsCheckOf ''u'' e s \<and> \<not> installsBufferOf ''u'' e s)
        [Disconnect ''u'' 7] committedServer
   \<and> (pacerView (run [Disconnect ''u'' 7] committedServer) ''u'' = pacerView committedServer ''u''
       \<or> \<not> isSending ''u'' (run [Disconnect ''u'' 7] committedServer)
         \<and> noChain ''u'' (run [Disconnect ''u'' 7] committedServer))"
proof -
  let ?es = "[Timeout 2, Connect ''v'' 8, UserMessage ''v'' ''yo'' 8, BufferReturns 0 (Inr [blockA]),
         UserMessage ''u'' ''ok'' 7, BufferReturns 0 (Inl ''overloaded'')]"
  have h: "needsUpdate (getUpdateCheckState ''u'' committedServer)"
    "\<not> waitingForGroup (getUpdateCheckState ''u'' committedServer)"
    "\<not> isBufferPaused ''u'' committedServer"
    by (simp_all add: committedServer_def session_readers theSession_def)
  have f: "firesStepOf ''u'' (Timeout 2) committedServer"
    by (simp add: committedServer_def firesStepOf_def)
  have ok: "alongRun (\<lambda>e s. \<not> returnsCheckOf ''u'' e s \<and> \<not> installsBufferOf ''u'' e s)
        ?es committedServer"
    "alongRun (\<lambda>e s. \<not> returnsCheckOf ''u'' e s \<and> \<not> installsBufferOf ''u'' e s)
        [Disconnect ''u'' 7] committedServer"
    by (simp_all add: committedServer_def returnsCheckOf_def installsBufferOf_def exec_defs
        del: theSession_fold userTimersOf_fold cong: let_weak_cong)
  note t = interrupted_step_is_silent[OF reachable_committedServer h(1,2)]
  from t[of "Some 7" True True ?es] h ok(1) f
  have a: "emitted (sendNextBlock ''u'' (Some 7) True True committedServer) = emitted committedServer"
    "\<not> isSending ''u'' (sendNextBlock ''u'' (Some 7) True True committedServer)"
    "emitted (step (Timeout 2) committedServer) = emitted committedServer"
    "pacerView (run ?es committedServer) ''u'' = pacerView committedServer ''u''
       \<or> \<not> isSending ''u'' (run ?es committedServer) \<and> noChain ''u'' (run ?es committedServer)"
    by simp_all
  from t[of "Some 7" True True "[Disconnect ''u'' 7]"] ok(2)
  have b: "pacerView (run [Disconnect ''u'' 7] committedServer) ''u'' = pacerView committedServer ''u''
       \<or> \<not> isSending ''u'' (run [Disconnect ''u'' 7] committedServer)
         \<and> noChain ''u'' (run [Disconnect ''u'' 7] committedServer)"
    by simp
  from reachable_committedServer h f ok a b show ?thesis by simp
qed

text \<open>
  C1.  Once the orchestrator has seen \<open>needsUpdate\<close> set and \<open>waitingForGroup\<close> clear, the pacer
  is to send no further block of the old buffer until a regeneration installs a new one.
  The code does not keep to this in the following run.  In \<open>committedServer\<close> the orchestrator
  has seen \<open>needsUpdate\<close> with \<open>waitingForGroup\<close> (its \<open>onGroupComplete\<close> ran for group 1 and
  cleared the latter, leaving the step of the pacer scheduled), and the group delay is armed.
  A further user message arrives while that step is scheduled, so a relevance check is made.
  When it answers no, \<open>triggerUpdateCheck\<close> clears \<open>needsUpdate\<close>; when it answers yes, it sets
  \<open>waitingForGroup\<close> again.  Either way the pacer step then emits block c of the old buffer;
  no buffer was generated in between, and the group delay timer is still armed.
\<close>

theorem stale_block_emitted_after_commit:
  "run interruptTrace initialServer = committedServer
   \<and> needsUpdate (getUpdateCheckState ''u'' committedServer)
   \<and> \<not> waitingForGroup (getUpdateCheckState ''u'' committedServer)
   \<and> calls committedServer = [GroupCompleteCall ''u'' (Some 1)]
   \<and> blocks (buffer (theSession committedServer ''u'')) = [blockA, blockB, blockC]
   \<and> emitted (run [UserMessage ''u'' ''ok'' 7, CheckReturns 0 False, Timeout 2] committedServer)
       = emitted committedServer @ [(7, MessageReceived ''ok''), (7, AiBlock ''c'' 2)]
   \<and> blocks (buffer (theSession
         (run [UserMessage ''u'' ''ok'' 7, CheckReturns 0 False, Timeout 2] committedServer) ''u''))
       = [blockA, blockB, blockC]
   \<and> fst (isTimerActive ''u'' GroupDelay
         (run [UserMessage ''u'' ''ok'' 7, CheckReturns 0 False, Timeout 2] committedServer))
   \<and> emitted (run [UserMessage ''u'' ''ok'' 7, CheckReturns 0 True, Timeout 2] committedServer)
       = emitted committedServer @ [(7, MessageReceived ''ok''), (7, AiBlock ''c'' 2)]
   \<and> blocks (buffer (theSession
         (run [UserMessage ''u'' ''ok'' 7, CheckReturns 0 True, Timeout 2] committedServer) ''u''))
       = [blockA, blockB, blockC]"
  by (simp add: interruptTrace_runs)
     (simp add: committedServer_def exec_defs del: theSession_fold userTimersOf_fold
        cong: let_weak_cong)

section \<open>C2: regeneration and the liveness of the channel\<close>

text \<open>
  C2 (as amended).  \<open>triggerUpdateBuffer\<close> cancels every timer of the user and stops the pacer
  before it calls \<open>updateBuffer\<close>: when the call is made no timer of the user is active, the
  user is not sending, and in a reachable state no timeout of the user is scheduled at all.
  When the call returns blocks they are installed whatever the state of the channel; the
  channel is looked at only afterwards, to start the pacer: with no registered socket, or a
  registered socket that is not connected, the installed buffer is left at cursor 0 with
  both update check flags cleared, nothing is emitted and nothing is scheduled.
\<close>

theorem regenerate_stops_then_installs:
  "(let s' = triggerUpdateBuffer u s in
      (\<forall>t. \<not> fst (isTimerActive u t s')) \<and> \<not> isSending u s'
      \<and> awaiting s' = awaiting s @ [UpdateBufferCall u (history (theSession s u))
            (drop (currentIndex (buffer (theSession s u))) (blocks (buffer (theSession s u))))]
      \<and> (reachable s \<longrightarrow>
           noChain u s' \<and> (\<forall>i d t cb. scheduled s' i \<noteq> Some (d, TimerFire u t cb))))
   \<and> (socketDead (getSocket u s) s \<longrightarrow>
        (let s' = triggerUpdateBuffer_resume u (Inr newBlocks) s in
           buffer (theSession s' u) =
             \<lparr> blocks = newBlocks, currentIndex = 0,
               currentGroup = (case newBlocks of [] \<Rightarrow> None | b # _ \<Rightarrow> Some (blockGroup b)),
               isComplete = False, isPaused = False \<rparr>
           \<and> updateCheck (theSession s' u) = \<lparr> needsUpdate = False, waitingForGroup = False \<rparr>
           \<and> emitted s' = emitted s \<and> scheduled s' = scheduled s
           \<and> sendingTimeouts s' = sendingTimeouts s))
   \<and> blocks (buffer (theSession (triggerUpdateBuffer_resume u (Inr newBlocks) s) u)) = newBlocks"
proof -
  have gone: "noChain u (triggerUpdateBuffer u s)
      \<and> (\<forall>i d t cb. scheduled (triggerUpdateBuffer u s) i \<noteq> Some (d, TimerFire u t cb))"
    if "reachable s"
  proof -
    have inv: "schedInv (triggerUpdateBuffer u s)"
      using that by (simp add: reachable_schedInv schedInv_triggerUpdateBuffer)
    have none: "sendingTimeouts (triggerUpdateBuffer u s) u = None"
      "userTimersOf (triggerUpdateBuffer u s) u = Map.empty"
      by (simp_all add: triggerUpdateBuffer_def Let_def)
    show ?thesis
      using inv none unfolding schedInv_def noChain_def by fastforce
  qed
  have call: "(\<forall>t. \<not> fst (isTimerActive u t (triggerUpdateBuffer u s)))
      \<and> \<not> isSending u (triggerUpdateBuffer u s)
      \<and> awaiting (triggerUpdateBuffer u s) = awaiting s @ [UpdateBufferCall u (history (theSession s u))
            (drop (currentIndex (buffer (theSession s u))) (blocks (buffer (theSession s u))))]"
    by (simp add: triggerUpdateBuffer_def Let_def isTimerActive_def isSending_def getHistory_def)
  have dead: "socketDead (getSocket u s) s \<longrightarrow>
        (let s' = triggerUpdateBuffer_resume u (Inr newBlocks) s in
           buffer (theSession s' u) =
             \<lparr> blocks = newBlocks, currentIndex = 0,
               currentGroup = (case newBlocks of [] \<Rightarrow> None | b # _ \<Rightarrow> Some (blockGroup b)),
               isComplete = False, isPaused = False \<rparr>
           \<and> updateCheck (theSession s' u) = \<lparr> needsUpdate = False, waitingForGroup = False \<rparr>
           \<and> emitted s' = emitted s \<and> scheduled s' = scheduled s
           \<and> sendingTimeouts s' = sendingTimeouts s)"
    by (auto simp: triggerUpdateBuffer_resume_def Let_def socketDead_def getSocket_def
        startSendingBuffer_def session_writers split: option.splits)
  from gone call dead triggerUpdateBuffer_resume_installs[of u newBlocks s]
  show ?thesis by (simp add: Let_def)
qed

text \<open>The theorem where no socket is registered (the user has disconnected).\<close>

theorem regenerate_stops_then_installs_witness:
  "socketDead (getSocket ''u'' (cleanup ''u'' sendingServer)) (cleanup ''u'' sendingServer)
   \<and> reachable sendingServer
   \<and> noChain ''u'' (triggerUpdateBuffer ''u'' sendingServer)
   \<and> blocks (buffer (theSession
        (triggerUpdateBuffer_resume ''u'' (Inr [blockC]) (cleanup ''u'' sendingServer)) ''u''))
       = [blockC]"
proof -
  have dead: "socketDead (getSocket ''u'' (cleanup ''u'' sendingServer)) (cleanup ''u'' sendingServer)"
    by (simp add: socketDead_def getSocket_def cleanup_def Let_def)
  from regenerate_stops_then_installs[of "''u''" sendingServer "[blockC]"]
       reachable_sendingServer
  have a: "noChain ''u'' (triggerUpdateBuffer ''u'' sendingServer)"
    by (simp add: Let_def)
  from regenerate_stops_then_installs[of "''u''" "cleanup ''u'' sendingServer" "[blockC]"] dead
  have b: "blocks (buffer (theSession
        (triggerUpdateBuffer_resume ''u'' (Inr [blockC]) (cleanup ''u'' sendingServer)) ''u''))
       = [blockC]"
    by (simp add: Let_def)
  from dead reachable_sendingServer a b show ?thesis by simp
qed

text \<open>
  C2 as stated fails.  The user disconnects while \<open>updateBuffer\<close> is pending; \<open>cleanup\<close>
  removes the session and the socket.  When the call returns, the channel is not live, and
  yet the returned block is installed (in a session created anew), so the buffer is neither
  dropped nor left unchanged.
\<close>

theorem buffer_installed_after_disconnect:
  "\<not> connected (run disconnectTrace initialServer) 7
   \<and> getSocket ''u'' (run disconnectTrace initialServer) = None
   \<and> sessions (run disconnectTrace initialServer) ''u'' = None
   \<and> blocks (buffer (theSession (run disconnectTrace initialServer) ''u'')) = []
   \<and> blocks (buffer (theSession
        (run (disconnectTrace @ [BufferReturns 0 (Inr [blockA])]) initialServer) ''u''))
       = [blockA]"
  by (simp add: exec_defs del: theSession_fold userTimersOf_fold cong: let_weak_cong)

section \<open>C3: a failed generation\<close>

text \<open>
  C3 (as amended).  When \<open>updateBuffer\<close> fails, the failed call installs nothing: the server
  state, sessions included, is what it was when the failure arrived, except that one \<open>error\<close>
  event is emitted to the registered socket, and none when no socket is registered.  The
  buffer's \<open>isComplete\<close> flag is not touched.  The pacer was stopped before the call; as long
  as no generation of the same user returns blocks, from the call to its failure and from
  the failure on, the user is not sending, and a user message then calls \<open>updateBuffer\<close>
  again, with the history and the pending blocks of that moment.
\<close>

theorem failed_generation_leaves_session:
  "triggerUpdateBuffer_resume u (Inl msg) s0 =
      s0\<lparr> emitted := emitted s0 @ (case getSocket u s0 of None \<Rightarrow> []
                 | Some sk \<Rightarrow> [(sk, ErrorEvent ''Failed to generate response'' msg)]) \<rparr>
   \<and> (reachable s
        \<and> alongRun (\<lambda>e s. \<not> installsBufferOf u e s) es (triggerUpdateBuffer u s)
        \<and> alongRun (\<lambda>e s. \<not> installsBufferOf u e s) es'
              (triggerUpdateBuffer_resume u (Inl msg) (run es (triggerUpdateBuffer u s))) \<longrightarrow>
        (let s1 = triggerUpdateBuffer_resume u (Inl msg) (run es (triggerUpdateBuffer u s));
             s2 = run es' s1;
             b = buffer (theSession s2 u)
         in \<not> isSending u s1 \<and> \<not> isSending u s2
            \<and> awaiting (handleUserMessage u m sk s2) =
                awaiting s2 @ [UpdateBufferCall u
                                 (history (theSession s2 u) @ [\<lparr> role = ''user'', content = m \<rparr>])
                                 (drop (currentIndex b) (blocks b))]))"
proof -
  have fail: "triggerUpdateBuffer_resume u (Inl msg) x =
      x\<lparr> emitted := emitted x @ (case getSocket u x of None \<Rightarrow> []
                 | Some sk \<Rightarrow> [(sk, ErrorEvent ''Failed to generate response'' msg)]) \<rparr>" for x
    by (simp add: triggerUpdateBuffer_resume_def getSocket_def emit_def split: option.splits)
  have retry: "awaiting (handleUserMessage u m sk x) =
        awaiting x @ [UpdateBufferCall u
                         (history (theSession x u) @ [\<lparr> role = ''user'', content = m \<rparr>])
                         (drop (currentIndex (buffer (theSession x u)))
                               (blocks (buffer (theSession x u))))]"
    if "\<not> isSending u x" for x
    using that
    by (simp add: handleUserMessage_def Let_def triggerUpdateBuffer_def isSending_def getHistory_def
        registerSocket_def timer_cancels session_writers session_readers)
  let ?s1 = "triggerUpdateBuffer_resume u (Inl msg) (run es (triggerUpdateBuffer u s))"
  have quiet: "\<not> isSending u ?s1 \<and> \<not> isSending u (run es' ?s1)"
    if r: "reachable s"
      and ok: "alongRun (\<lambda>e s. \<not> installsBufferOf u e s) es (triggerUpdateBuffer u s)"
      and ok': "alongRun (\<lambda>e s. \<not> installsBufferOf u e s) es' ?s1"
  proof -
    have inv: "schedInv (triggerUpdateBuffer u s)"
      using r by (simp add: reachable_schedInv schedInv_triggerUpdateBuffer)
    have "sendingTimeouts (triggerUpdateBuffer u s) u = None" by simp
    with inv have n0: "sendingTimeouts (run es (triggerUpdateBuffer u s)) u = None"
      using ok by (rule notSending_run)
    have inv0: "schedInv (run es (triggerUpdateBuffer u s))"
      using inv by (rule schedInv_run)
    have inv1: "schedInv ?s1" using inv0 by (rule schedInv_triggerUpdateBuffer_resume)
    have n1: "sendingTimeouts ?s1 u = None" using n0 by (simp add: fail)
    from inv1 n1 ok' have "sendingTimeouts (run es' ?s1) u = None" by (rule notSending_run)
    with n1 show ?thesis by (simp add: isSending_def)
  qed
  show ?thesis
    using fail[of s0] quiet retry by (simp add: Let_def)
qed

text \<open>The theorem at \<open>sendingServer\<close>: the user types and another user is served while the
  user's call is pending, and after the failure the pacer of the other user takes a step.\<close>

theorem failed_generation_leaves_session_witness:
  "emitted (triggerUpdateBuffer_resume ''u'' (Inl ''overloaded'') sendingServer)
     = emitted sendingServer @ [(7, ErrorEvent ''Failed to generate response'' ''overloaded'')]
   \<and> sessions (triggerUpdateBuffer_resume ''u'' (Inl ''overloaded'') sendingServer)
     = sessions sendingServer
   \<and> reachable sendingServer
   \<and> alongRun (\<lambda>e s. \<not> installsBufferOf ''u'' e s)
        [TypingStatus ''u'' True 7, Connect ''v'' 8, UserMessage ''v'' ''yo'' 8,
         BufferReturns 1 (Inr [blockA, blockB])]
        (triggerUpdateBuffer ''u'' sendingServer)
   \<and> alongRun (\<lambda>e s. \<not> installsBufferOf ''u'' e s) [Timeout 2]
        (triggerUpdateBuffer_resume ''u'' (Inl ''overloaded'')
          (run [TypingStatus ''u'' True 7, Connect ''v'' 8, UserMessage ''v'' ''yo'' 8,
                BufferReturns 1 (Inr [blockA, blockB])]
             (triggerUpdateBuffer ''u'' sendingServer)))
   \<and> \<not> isSending ''u'' (run [Timeout 2] (triggerUpdateBuffer_resume ''u'' (Inl ''overloaded'')
          (run [TypingStatus ''u'' True 7, Connect ''v'' 8, UserMessage ''v'' ''yo'' 8,
                BufferReturns 1 (Inr [blockA, blockB])]
             (triggerUpdateBuffer ''u'' sendingServer))))"
proof -
  let ?es = "[TypingStatus ''u'' True 7, Connect ''v'' 8, UserMessage ''v'' ''yo'' 8,
         BufferReturns 1 (Inr [blockA, blockB])]"
  have sk: "getSocket ''u'' sendingServer = Some 7"
    by (simp add: getSocket_def sendingServer_def)
  have ok: "alongRun (\<lambda>e s. \<not> installsBufferOf ''u'' e s) ?es
      (triggerUpdateBuffer ''u'' sendingServer)"
    "alongRun (\<lambda>e s. \<not> installsBufferOf ''u'' e s) [Timeout 2]
        (triggerUpdateBuffer_resume ''u'' (Inl ''overloaded'')
          (run ?es (triggerUpdateBuffer ''u'' sendingServer)))"
    by (simp_all add: sendingServer_def installsBufferOf_def exec_defs
        del: theSession_fold userTimersOf_fold cong: let_weak_cong)
  note t = failed_generation_leaves_session[of "''u''" "''overloaded''" sendingServer
      sendingServer ?es "[Timeout 2]" "''again''" 7]
  from t have a: "triggerUpdateBuffer_resume ''u'' (Inl ''overloaded'') sendingServer
        = sendingServer\<lparr> emitted := emitted sendingServer
            @ [(7, ErrorEvent ''Failed to generate response'' ''overloaded'')] \<rparr>"
    by (simp add: sk)
  from t reachable_sendingServer ok
  have b: "\<not> isSending ''u'' (run [Timeout 2] (triggerUpdateBuffer_resume ''u'' (Inl ''overloaded'')
          (run ?es (triggerUpdateBuffer ''u'' sendingServer))))"
    by (simp add: Let_def)
  from a b ok reachable_sendingServer show ?thesis by simp
qed

text \<open>
  C3 as stated fails in three ways.  The buffer is not marked complete: the first
  generation of a fresh session fails, one \<open>error\<close> event is emitted and \<open>isComplete\<close> is
  false.  No \<open>error\<close> event is emitted when the user has disconnected while the call was
  pending.  And the message after a failure does not always regenerate: of two overlapping
  generations the second returns blocks, so the pacer runs when the first fails, and the
  next message starts a relevance check.
\<close>

theorem failed_generation_buffer_not_complete:
  "emitted (run failureTrace initialServer)
     = [(7, MessageReceived ''hi''), (7, ErrorEvent ''Failed to generate response'' ''overloaded'')]
   \<and> \<not> isBufferComplete ''u'' (run failureTrace initialServer)
   \<and> awaiting (run disconnectTrace initialServer)
       = [UpdateBufferCall ''u'' [\<lparr> role = ''user'', content = ''hi'' \<rparr>] []]
   \<and> emitted (run (disconnectTrace @ [BufferReturns 0 (Inl ''overloaded'')]) initialServer)
       = [(7, MessageReceived ''hi'')]
   \<and> emitted (run overlapTrace initialServer)
       = [(7, MessageReceived ''hi''), (7, MessageReceived ''again''), (7, AiBlock ''a'' 1),
          (7, ErrorEvent ''Failed to generate response'' ''overloaded'')]
   \<and> isSending ''u'' (run overlapTrace initialServer)
   \<and> awaiting (run overlapTrace initialServer) = []
   \<and> awaiting (run (overlapTrace @ [UserMessage ''u'' ''retry'' 7]) initialServer)
       = [UpdateCheckCall ''u''
            [\<lparr> role = ''user'', content = ''hi'' \<rparr>, \<lparr> role = ''user'', content = ''again'' \<rparr>,
             \<lparr> role = ''model'', content = ''a'' \<rparr>, \<lparr> role = ''user'', content = ''retry'' \<rparr>]
            [blockA, blockB, blockC] 1]"
  by (simp add: overlapTrace_def exec_defs del: theSession_fold userTimersOf_fold
      cong: let_weak_cong)

section \<open>C4: the gate of the end-update timer\<close>

text \<open>
  C4.  If \<open>_handleBufferComplete\<close> starts the end-update timer, the user's
  \<open>userMessagedSinceLastEndUpdate\<close> flag was true when it was called; when the flag is false
  it starts no end-update timer, for any user.  In every reachable state, a user whose
  end-update timer is active has the flag set.
\<close>

theorem endUpdate_timer_gate:
  "(timerStarted EndUpdate u s (handleBufferComplete u s) \<longrightarrow> hasUserMessagedSinceEndUpdate u s)
   \<and> (\<not> hasUserMessagedSinceEndUpdate u s \<longrightarrow>
         \<not> timerStarted EndUpdate v s (handleBufferComplete u s))
   \<and> (reachable s \<longrightarrow> fst (isTimerActive u EndUpdate s) \<longrightarrow> hasUserMessagedSinceEndUpdate u s)"
proof -
  have local: "(timerStarted EndUpdate u s (handleBufferComplete u s)
                  \<longrightarrow> hasUserMessagedSinceEndUpdate u s)
   \<and> (\<not> hasUserMessagedSinceEndUpdate u s \<longrightarrow>
         \<not> timerStarted EndUpdate v s (handleBufferComplete u s))"
    by (auto simp: handleBufferComplete_def Let_def timerStarted_def session_readers session_writers
        timer_starters getSocket_def split: option.splits)
  have global: "fst (isTimerActive u EndUpdate s) \<longrightarrow> hasUserMessagedSinceEndUpdate u s"
    if "reachable s"
    using reachable_gateInv[OF that] by (simp add: gateInv_def isTimerActive_def)
  from local global show ?thesis by blast
qed

text \<open>The theorem where the buffer completes after a user message, at a fresh session
  (whose flag is false), and in the state reached when an empty answer completes at once.\<close>

theorem endUpdate_timer_gate_witness:
  "timerStarted EndUpdate ''u'' sendingServer (handleBufferComplete ''u'' sendingServer)
   \<and> hasUserMessagedSinceEndUpdate ''u'' sendingServer
   \<and> \<not> hasUserMessagedSinceEndUpdate ''u'' initialServer
   \<and> \<not> timerStarted EndUpdate ''u'' initialServer (handleBufferComplete ''u'' initialServer)
   \<and> reachable (run completedTrace initialServer)
   \<and> fst (isTimerActive ''u'' EndUpdate (run completedTrace initialServer))
   \<and> hasUserMessagedSinceEndUpdate ''u'' (run completedTrace initialServer)"
proof -
  have a: "timerStarted EndUpdate ''u'' sendingServer (handleBufferComplete ''u'' sendingServer)"
    "\<not> hasUserMessagedSinceEndUpdate ''u'' initialServer"
    "fst (isTimerActive ''u'' EndUpdate (run completedTrace initialServer))"
    by (simp_all add: sendingServer_def completedTrace_def exec_defs
        del: theSession_fold userTimersOf_fold cong: let_weak_cong)
  have r: "reachable (run completedTrace initialServer)"
    by (rule reachable_run[OF reachable_init])
  from endUpdate_timer_gate[of "''u''" sendingServer "''u''"] a(1)
  have b: "hasUserMessagedSinceEndUpdate ''u'' sendingServer" by blast
  from endUpdate_timer_gate[of "''u''" initialServer "''u''"] a(2)
  have c: "\<not> timerStarted EndUpdate ''u'' initialServer (handleBufferComplete ''u'' initialServer)"
    by blast
  from endUpdate_timer_gate[of "''u''" "run completedTrace initialServer" "''u''"] r a(3)
  have d: "hasUserMessagedSinceEndUpdate ''u'' (run completedTrace initialServer)" by blast
  from a b c d r show ?thesis by simp
qed

section \<open>C5: one emission chain per user\<close>

text \<open>
  C5 (as amended).  In every reachable state at most one pacer step is scheduled for a user.
  \<open>startSendingBuffer\<close> called with a connected socket cancels the step that is scheduled for
  the user before it begins the new loop: that timeout is not scheduled in the state in
  which \<open>_sendNextBlock\<close> is entered, and not afterwards.  Called
  with no socket or with a socket that is not connected, it returns at once and changes
  nothing, the scheduled step included.
\<close>

theorem single_chain_and_live_start:
  assumes "reachable s"
  shows "(\<forall>i j d d' sk sk' g g' b b'.
            scheduled s i = Some (d, PacerStep u sk g b)
            \<and> scheduled s j = Some (d', PacerStep u sk' g' b') \<longrightarrow> i = j)
       \<and> (\<forall>i d sk g b sk0.
            connected s sk0 \<and> scheduled s i = Some (d, PacerStep u sk g b) \<longrightarrow>
            (let s3 = resumeBuffer u (stopSending u
                        (s\<lparr> bufferSockets := (bufferSockets s)(u \<mapsto> sk0) \<rparr>))
             in scheduled s3 i = None
                \<and> startSendingBuffer u (Some sk0) g0 b0 s = sendNextBlock u (Some sk0) g0 b0 s3
                \<and> scheduled (startSendingBuffer u (Some sk0) g0 b0 s) i = None))
       \<and> (socketDead socket s \<longrightarrow> startSendingBuffer u socket g0 b0 s = s)"
proof (intro conjI allI impI)
  have inv: "schedInv s" using assms by (rule reachable_schedInv)
  {
    fix i j d d' sk sk' g g' b b'
    assume "scheduled s i = Some (d, PacerStep u sk g b)
            \<and> scheduled s j = Some (d', PacerStep u sk' g' b')"
    with inv have "sendingTimeouts s u = Some i" and "sendingTimeouts s u = Some j"
      unfolding schedInv_def by fastforce+
    then show "i = j" by simp
  }
  {
    fix i d sk g b sk0
    assume a: "connected s sk0 \<and> scheduled s i = Some (d, PacerStep u sk g b)"
    with inv have st: "sendingTimeouts s u = Some i" and lt: "i < nextTimeoutId s"
      unfolding schedInv_def by fastforce+
    let ?s3 = "resumeBuffer u (stopSending u (s\<lparr> bufferSockets := (bufferSockets s)(u \<mapsto> sk0) \<rparr>))"
    have r3: "retired i ?s3"
      using st lt by (simp add: retired_def session_writers)
    then have "retired i (sendNextBlock u (Some sk0) g0 b0 ?s3)"
      by (rule retired_sendNextBlock)
    with r3 show "let s3 = ?s3
         in scheduled s3 i = None
            \<and> startSendingBuffer u (Some sk0) g0 b0 s = sendNextBlock u (Some sk0) g0 b0 s3
            \<and> scheduled (startSendingBuffer u (Some sk0) g0 b0 s) i = None"
      using a by (simp add: startSendingBuffer_def Let_def retired_def)
  }
  {
    assume "socketDead socket s"
    then show "startSendingBuffer u socket g0 b0 s = s"
      by (simp add: startSendingBuffer_def socketDead_def split: option.splits)
  }
qed

text \<open>The theorem at \<open>sendingServer\<close>, where timeout 0 holds the user's pacer step.\<close>

theorem single_chain_and_live_start_witness:
  "reachable sendingServer
   \<and> connected sendingServer 7
   \<and> scheduled sendingServer 0 = Some (1000, PacerStep ''u'' (Some 7) True True)
   \<and> scheduled (startSendingBuffer ''u'' (Some 7) True True sendingServer) 0 = None
   \<and> socketDead None sendingServer
   \<and> startSendingBuffer ''u'' None True True sendingServer = sendingServer"
proof -
  have a: "connected sendingServer 7"
    "scheduled sendingServer 0 = Some (1000, PacerStep ''u'' (Some 7) True True)"
    "socketDead None sendingServer"
    by (simp_all add: sendingServer_def socketDead_def)
  from single_chain_and_live_start[OF reachable_sendingServer, of "''u''" True True None] a
  have "scheduled (startSendingBuffer ''u'' (Some 7) True True sendingServer) 0 = None"
    and "startSendingBuffer ''u'' None True True sendingServer = sendingServer"
    unfolding Let_def by blast+
  with a reachable_sendingServer show ?thesis by simp
qed

text \<open>
  C5 as stated fails for a dead or missing channel: \<open>startSendingBuffer\<close> returns before it
  reaches \<open>stopSending\<close>, so the step scheduled before the call is still scheduled after it,
  both when no socket is passed and when the socket passed is no longer connected.
\<close>

theorem dead_start_keeps_chain:
  "run sendingTrace initialServer = sendingServer
   \<and> scheduled sendingServer 0 = Some (1000, PacerStep ''u'' (Some 7) True True)
   \<and> scheduled (startSendingBuffer ''u'' None True True sendingServer) 0
       = Some (1000, PacerStep ''u'' (Some 7) True True)
   \<and> \<not> connected (sendingServer\<lparr> connected := (connected sendingServer)(7 := False) \<rparr>) 7
   \<and> scheduled (startSendingBuffer ''u'' (Some 7) True True
        (sendingServer\<lparr> connected := (connected sendingServer)(7 := False) \<rparr>)) 0
       = Some (1000, PacerStep ''u'' (Some 7) True True)"
  by (simp add: sendingTrace_runs) (simp add: sendingServer_def startSendingBuffer_def)

section \<open>C6: the group callback\<close>

text \<open>
  C6.  In a pacer step that emits a block (live socket, not paused, no committed interrupt,
  a block at the cursor): the block emitted is the one at the old cursor, the cursor is then
  advanced by one, and \<open>onGroupComplete(userId, previousGroup)\<close> is invoked exactly when the
  group at the new cursor differs from \<open>previousGroup\<close>, where the group at the new cursor is
  null once the buffer is exhausted.  (The call is guarded by \<open>&& onGroupComplete\<close>: a step
  that was given no callback invokes none.  The orchestrator always passes one.)
\<close>

theorem group_callback_iff_group_changes:
  assumes "connected s sk" and "\<not> isBufferPaused u s"
    and "\<not> (needsUpdate (getUpdateCheckState u s) \<and> \<not> waitingForGroup (getUpdateCheckState u s))"
    and "fst (getNextBlock u s) = Some blk"
  shows "let s' = sendNextBlock u (Some sk) onGroupComplete onBufferComplete s;
             buf = buffer (theSession s u); buf' = buffer (theSession s' u);
             previousGroup = getCurrentGroup u s;
             newGroup = (if currentIndex buf + 1 < length (blocks buf)
                         then Some (blockGroup (blocks buf ! (currentIndex buf + 1))) else None)
         in blk = blocks buf ! currentIndex buf
          \<and> emitted s' = emitted s @ [(sk, AiBlock (blockText blk) (blockGroup blk))]
          \<and> currentIndex buf' = currentIndex buf + 1 \<and> blocks buf' = blocks buf
          \<and> getCurrentGroup u s' = newGroup
          \<and> calls s' = calls s @ (if previousGroup \<noteq> newGroup \<and> onGroupComplete
                                   then [GroupCompleteCall u previousGroup] else [])
          \<and> (onGroupComplete \<longrightarrow>
                calls s' = calls s @ (if previousGroup \<noteq> newGroup
                                      then [GroupCompleteCall u previousGroup] else []))"
proof -
  have blk: "blk = blocks (buffer (theSession s u)) ! currentIndex (buffer (theSession s u))"
    using assms(4) by (simp add: getNextBlock_fst Let_def split: if_splits)
  show ?thesis
    using blk
    by (simp add: sendNextBlock_emits[OF assms(1-4)] Let_def setTimeout_def
        getCurrentGroup_def advanceBlock_def addAIMessage_def)
qed

text \<open>The theorem at \<open>sendingServer\<close> (block b ends group 1) and at the last block of a
  buffer, where the new group is null.\<close>

theorem group_callback_iff_group_changes_witness:
  "connected sendingServer 7 \<and> \<not> isBufferPaused ''u'' sendingServer
   \<and> fst (getNextBlock ''u'' sendingServer) = Some blockB
   \<and> emitted (sendNextBlock ''u'' (Some 7) True True sendingServer)
       = emitted sendingServer @ [(7, AiBlock ''b'' 1)]
   \<and> calls (sendNextBlock ''u'' (Some 7) True True sendingServer)
       = [GroupCompleteCall ''u'' (Some 1)]
   \<and> calls (sendNextBlock ''u'' (Some 7) True True (setBuffer ''u'' [blockC] sendingServer))
       = [GroupCompleteCall ''u'' (Some 2)]
   \<and> getCurrentGroup ''u''
        (sendNextBlock ''u'' (Some 7) True True (setBuffer ''u'' [blockC] sendingServer)) = None"
proof -
  have a: "connected sendingServer 7" "\<not> isBufferPaused ''u'' sendingServer"
    "\<not> (needsUpdate (getUpdateCheckState ''u'' sendingServer)
        \<and> \<not> waitingForGroup (getUpdateCheckState ''u'' sendingServer))"
    "fst (getNextBlock ''u'' sendingServer) = Some blockB"
    by (simp_all add: sendingServer_def getNextBlock_fst session_readers theSession_def
        blockB_def)
  have b: "connected (setBuffer ''u'' [blockC] sendingServer) 7"
    "\<not> isBufferPaused ''u'' (setBuffer ''u'' [blockC] sendingServer)"
    "\<not> (needsUpdate (getUpdateCheckState ''u'' (setBuffer ''u'' [blockC] sendingServer))
        \<and> \<not> waitingForGroup (getUpdateCheckState ''u'' (setBuffer ''u'' [blockC] sendingServer)))"
    "fst (getNextBlock ''u'' (setBuffer ''u'' [blockC] sendingServer)) = Some blockC"
    by (simp_all add: sendingServer_def getNextBlock_fst session_readers session_writers
        theSession_def del: theSession_fold)
  have c: "calls sendingServer = []" "buffer (theSession sendingServer ''u'') =
      \<lparr> blocks = [blockA, blockB, blockC], currentIndex = 1, currentGroup = Some 1,
        isComplete = False, isPaused = False \<rparr>"
    by (simp_all add: sendingServer_def theSession_def blockA_def blockB_def blockC_def)
  from group_callback_iff_group_changes[OF a, of True True]
  have d: "emitted (sendNextBlock ''u'' (Some 7) True True sendingServer)
       = emitted sendingServer @ [(7, AiBlock ''b'' 1)]"
    "calls (sendNextBlock ''u'' (Some 7) True True sendingServer)
       = [GroupCompleteCall ''u'' (Some 1)]"
    by (simp_all add: Let_def c getCurrentGroup_def blockA_def blockB_def blockC_def)
  from group_callback_iff_group_changes[OF b, of True True]
  have e: "calls (sendNextBlock ''u'' (Some 7) True True (setBuffer ''u'' [blockC] sendingServer))
       = [GroupCompleteCall ''u'' (Some 2)]"
    "getCurrentGroup ''u''
        (sendNextBlock ''u'' (Some 7) True True (setBuffer ''u'' [blockC] sendingServer)) = None"
    by (simp_all add: Let_def c getCurrentGroup_def setBuffer_def blockC_def)
  from a d e show ?thesis by simp
qed

section \<open>C7: the delay before the next step\<close>

text \<open>
  The delay of the next step for every typing time.  In a pacer step that emits a block, the
  timeout recorded for the user's next step has the delay that the timer makes of
  \<open>Math.max(typingTime * 1000, 1000)\<close>.
  For a typing time of at most one second that is exactly 1000 milliseconds.  For a longer
  one it is the product as a double, which is at least 1000 and differs from the exact
  product by at most the \<open>2 ^ 53\<close>-th part of it, as long as that double is at most
  2147483647; beyond that, and for an infinite typing time, the delay is 1 millisecond.
\<close>

theorem next_step_delay:
  assumes "connected s sk" and "\<not> isBufferPaused u s"
    and "\<not> (needsUpdate (getUpdateCheckState u s) \<and> \<not> waitingForGroup (getUpdateCheckState u s))"
    and "fst (getNextBlock u s) = Some blk"
  shows "scheduledStepDelay u (sendNextBlock u (Some sk) g b s)
           = Some (timeoutDelay (mathMax (multiply (typingTime blk) (Finite 1000)) (Finite 1000)))
    \<and> (\<forall>t. typingTime blk = Finite t \<and> t \<le> 1 \<longrightarrow>
          scheduledStepDelay u (sendNextBlock u (Some sk) g b s) = Some 1000)
    \<and> (\<forall>t y. typingTime blk = Finite t \<and> 1 \<le> t
              \<and> multiply (Finite t) (Finite 1000) = Finite y \<longrightarrow>
          1000 \<le> y \<and> \<bar>y - t * 1000\<bar> \<le> t * 1000 / 2 ^ 53
          \<and> scheduledStepDelay u (sendNextBlock u (Some sk) g b s)
              = Some (if y \<le> 2147483647 then y else 1))
    \<and> (multiply (typingTime blk) (Finite 1000) = PosInfinity \<longrightarrow>
          scheduledStepDelay u (sendNextBlock u (Some sk) g b s) = Some 1)"
proof -
  have d: "scheduledStepDelay u (sendNextBlock u (Some sk) g b s)
      = Some (timeoutDelay (blockDelay blk))"
    by (simp add: sendNextBlock_emits[OF assms] Let_def scheduledStepDelay_def setTimeout_def)
  have short: "timeoutDelay (blockDelay blk) = 1000" if "typingTime blk = Finite t" "t \<le> 1" for t
    using that by (simp add: timeoutDelay_blockDelay)
  have long: "1000 \<le> y \<and> \<bar>y - t * 1000\<bar> \<le> t * 1000 / 2 ^ 53
      \<and> timeoutDelay (blockDelay blk) = (if y \<le> 2147483647 then y else 1)"
    if tt: "typingTime blk = Finite t" and t1: "1 \<le> t"
      and y: "multiply (Finite t) (Finite 1000) = Finite y" for t y
  proof -
    from y have r: "roundDouble (t * 1000) = Finite y" by simp
    have x: "1000 \<le> t * 1000" using t1 by simp
    then have x1: "1 \<le> t * 1000" by simp
    have ge: "1000 \<le> y" using x r by (rule roundDouble_ge_1000)
    have err: "\<bar>y - t * 1000\<bar> \<le> t * 1000 / 2 ^ 53" using x1 r by (rule roundDouble_error)
    have "timeoutDelay (blockDelay blk) = (if y \<le> 2147483647 then y else 1)"
      using ge by (simp add: blockDelay_def tt r max_def)
    with ge err show ?thesis by simp
  qed
  have inf: "timeoutDelay (blockDelay blk) = 1"
    if "multiply (typingTime blk) (Finite 1000) = PosInfinity"
    using that by (simp add: blockDelay_def)
  show ?thesis
  proof (intro conjI allI impI)
    show "scheduledStepDelay u (sendNextBlock u (Some sk) g b s)
           = Some (timeoutDelay (mathMax (multiply (typingTime blk) (Finite 1000)) (Finite 1000)))"
      using d by (simp only: blockDelay_def)
  next
    fix t
    assume "typingTime blk = Finite t \<and> t \<le> 1"
    then show "scheduledStepDelay u (sendNextBlock u (Some sk) g b s) = Some 1000"
      using d short by simp
  next
    fix t y
    assume "typingTime blk = Finite t \<and> 1 \<le> t \<and> multiply (Finite t) (Finite 1000) = Finite y"
    then have "1000 \<le> y \<and> \<bar>y - t * 1000\<bar> \<le> t * 1000 / 2 ^ 53
      \<and> timeoutDelay (blockDelay blk) = (if y \<le> 2147483647 then y else 1)"
      using long by blast
    then show "1000 \<le> y" and "\<bar>y - t * 1000\<bar> \<le> t * 1000 / 2 ^ 53"
      and "scheduledStepDelay u (sendNextBlock u (Some sk) g b s)
              = Some (if y \<le> 2147483647 then y else 1)"
      using d by simp_all
  next
    assume "multiply (typingTime blk) (Finite 1000) = PosInfinity"
    then show "scheduledStepDelay u (sendNextBlock u (Some sk) g b s) = Some 1"
      using d inf by simp
  qed
qed

text \<open>The theorem at \<open>sendingServer\<close>, whose next block b has a typing time of half a second,
  and where the next block has a typing time of 3000000 seconds, or the typing time that is
  written 1.005 (whose product with 1000 is the double below 1005).\<close>

theorem next_step_delay_witness:
  "connected sendingServer 7 \<and> \<not> isBufferPaused ''u'' sendingServer
   \<and> fst (getNextBlock ''u'' sendingServer) = Some blockB
   \<and> typingTime blockB = Finite (1 / 2)
   \<and> scheduledStepDelay ''u'' (sendNextBlock ''u'' (Some 7) True True sendingServer) = Some 1000
   \<and> fst (getNextBlock ''u'' (setBuffer ''u'' [slowBlock] sendingServer)) = Some slowBlock
   \<and> multiply (Finite 3000000) (Finite 1000) = Finite 3000000000
   \<and> scheduledStepDelay ''u''
        (sendNextBlock ''u'' (Some 7) True True (setBuffer ''u'' [slowBlock] sendingServer)) = Some 1
   \<and> jsonNumber (1005 / 1000) = Finite (1131529406376837 / 2 ^ 50)
   \<and> multiply (Finite (1131529406376837 / 2 ^ 50)) (Finite 1000)
        = Finite (8840073487319039 / 2 ^ 43)
   \<and> scheduledStepDelay ''u''
        (sendNextBlock ''u'' (Some 7) True True
           (setBuffer ''u'' [\<lparr> blockText = ''y'', typingTime = Finite (1131529406376837 / 2 ^ 50),
                               blockGroup = 1 \<rparr>] sendingServer))
        = Some (8840073487319039 / 2 ^ 43)"
proof -
  let ?y = "\<lparr> blockText = ''y'', typingTime = Finite (1131529406376837 / 2 ^ 50), blockGroup = 1 \<rparr>"
  have a: "connected sendingServer 7" "\<not> isBufferPaused ''u'' sendingServer"
    "\<not> (needsUpdate (getUpdateCheckState ''u'' sendingServer)
        \<and> \<not> waitingForGroup (getUpdateCheckState ''u'' sendingServer))"
    "fst (getNextBlock ''u'' sendingServer) = Some blockB"
    by (simp_all add: sendingServer_def getNextBlock_fst session_readers theSession_def
        blockB_def)
  have c: "connected (setBuffer ''u'' bs sendingServer) 7"
    "\<not> isBufferPaused ''u'' (setBuffer ''u'' bs sendingServer)"
    "\<not> (needsUpdate (getUpdateCheckState ''u'' (setBuffer ''u'' bs sendingServer))
        \<and> \<not> waitingForGroup (getUpdateCheckState ''u'' (setBuffer ''u'' bs sendingServer)))" for bs
    by (simp_all add: sendingServer_def session_readers session_writers
        theSession_def del: theSession_fold)
  have n: "fst (getNextBlock ''u'' (setBuffer ''u'' [blk] sendingServer)) = Some blk" for blk
    by (simp add: getNextBlock_fst session_writers)
  have m: "multiply (Finite 3000000) (Finite 1000) = Finite 3000000000"
    "multiply (Finite (1131529406376837 / 2 ^ 50)) (Finite 1000)
        = Finite (8840073487319039 / 2 ^ 43)"
    using roundDouble_3000000000 roundDouble_1005 by simp_all
  have t: "typingTime blockB = Finite (1 / 2)" "typingTime slowBlock = Finite 3000000"
    "typingTime ?y = Finite (1131529406376837 / 2 ^ 50)"
    by (simp_all add: blockB_def slowBlock_def)
  from next_step_delay[OF a, of True True, THEN conjunct2, THEN conjunct1, rule_format,
      of "1 / 2"] t(1)
  have r1: "scheduledStepDelay ''u'' (sendNextBlock ''u'' (Some 7) True True sendingServer)
      = Some 1000" by simp
  from next_step_delay[OF c[of "[slowBlock]"] n[of slowBlock], of True True, THEN conjunct2, THEN conjunct2,
      THEN conjunct1, rule_format, of 3000000 3000000000] t(2) m(1)
  have r2: "scheduledStepDelay ''u''
        (sendNextBlock ''u'' (Some 7) True True (setBuffer ''u'' [slowBlock] sendingServer)) = Some 1"
    by simp
  from next_step_delay[OF c[of "[?y]"] n[of ?y], of True True, THEN conjunct2, THEN conjunct2,
      THEN conjunct1, rule_format, of "1131529406376837 / 2 ^ 50" "8840073487319039 / 2 ^ 43"]
    t(3) m(2)
  have r3: "scheduledStepDelay ''u''
        (sendNextBlock ''u'' (Some 7) True True (setBuffer ''u'' [?y] sendingServer))
        = Some (8840073487319039 / 2 ^ 43)"
    by simp
  have j: "jsonNumber (1005 / 1000) = Finite (1131529406376837 / 2 ^ 50)"
    by (simp add: jsonNumber_def round_eval)
  from a t(1) r1 n[of slowBlock] m r2 r3 j show ?thesis by simp
qed

text \<open>
  C7.  The delay before the next step is to be \<open>max (typingTime * 1000) 1000\<close> milliseconds,
  so at least a second.  The code does not keep to this in the following run.
  \<open>updateBuffer\<close> accepts every number as a typing time.  With a first block whose typing
  time is 3000000 seconds, the delay computed for the next step is 3000000000 milliseconds,
  which is above 2147483647: the step is scheduled after 1 millisecond, and it sends the
  next block.
\<close>

theorem oversized_delay_is_one_millisecond:
  "blocks (buffer (theSession (run slowTrace initialServer) ''u'')) = [slowBlock, blockC]
   \<and> emitted (run slowTrace initialServer) = [(7, MessageReceived ''hi''), (7, AiBlock ''z'' 1)]
   \<and> blockDelay slowBlock = Finite 3000000000
   \<and> scheduled (run slowTrace initialServer) 0 = Some (1, PacerStep ''u'' (Some 7) True True)
   \<and> scheduledStepDelay ''u'' (run slowTrace initialServer) = Some 1
   \<and> scheduledStepDelay ''u'' (run slowTrace initialServer) \<noteq> Some (max (3000000 * 1000) 1000)
   \<and> emitted (run (slowTrace @ [Timeout 0]) initialServer)
       = [(7, MessageReceived ''hi''), (7, AiBlock ''z'' 1), (7, AiBlock ''c'' 2)]"
  by (simp add: slowTrace_def slowBlock_def roundDouble_3000000000 blockDelay_def exec_defs
      del: theSession_fold userTimersOf_fold cong: let_weak_cong)

section \<open>C8: stopping twice\<close>

text \<open>
  C8 (as amended).  Two consecutive calls of \<open>stopAIResponse\<close> leave the server (sessions,
  timers, pacer, scheduled timeouts) in the state one call leaves it in; every call emits
  one \<open>ai_complete\<close> to the socket it is given, so the second call adds a second
  \<open>ai_complete\<close> and nothing else.
\<close>

theorem stop_twice_same_state_one_more_event:
  "stopAIResponse u socket (stopAIResponse u socket s) =
     (stopAIResponse u socket s)\<lparr> emitted := emitted (stopAIResponse u socket s)
        @ (case socket of None \<Rightarrow> [] | Some sk \<Rightarrow> [(sk, AiComplete)]) \<rparr>"
  by (rule server.equality)
     (simp_all add: stopAIResponse_def Let_def markBufferComplete_def cancelAllTimers_none
        split: option.splits)

theorem stop_twice_same_state_one_more_event_witness:
  "sessions (stopAIResponse ''u'' (Some 7) (stopAIResponse ''u'' (Some 7) committedServer))
     = sessions (stopAIResponse ''u'' (Some 7) committedServer)
   \<and> scheduled (stopAIResponse ''u'' (Some 7) (stopAIResponse ''u'' (Some 7) committedServer))
     = scheduled (stopAIResponse ''u'' (Some 7) committedServer)
   \<and> emitted (stopAIResponse ''u'' (Some 7) (stopAIResponse ''u'' (Some 7) committedServer))
     = emitted (stopAIResponse ''u'' (Some 7) committedServer) @ [(7, AiComplete)]"
  using stop_twice_same_state_one_more_event[of "''u''" "Some 7" committedServer]
  by simp

text \<open>C8 as stated fails on the emissions: two stops emit \<open>ai_complete\<close> twice, one stop
  once.\<close>

theorem stop_twice_emits_twice:
  "emitted (run [Connect ''u'' 7, StopAiResponse ''u'' 7] initialServer) = [(7, AiComplete)]
   \<and> emitted (run [Connect ''u'' 7, StopAiResponse ''u'' 7, StopAiResponse ''u'' 7] initialServer)
       = [(7, AiComplete), (7, AiComplete)]
   \<and> emitted (run [Connect ''u'' 7, StopAiResponse ''u'' 7, StopAiResponse ''u'' 7] initialServer)
       \<noteq> emitted (run [Connect ''u'' 7, StopAiResponse ''u'' 7] initialServer)"
  by (simp add: exec_defs del: theSession_fold userTimersOf_fold cong: let_weak_cong)

section \<open>C9: a timer's entry when its callback runs\<close>




section \<open>C10: the prompt of the relevance check\<close>

text \<open>
  C10.  The prompt that \<open>updateCheck\<close> builds is the evaluator prompt followed by three
  sections.  \<open>SENT BLOCKS\<close> shows the texts of the blocks at the indices below \<open>currentIndex\<close>,
  \<open>PENDING BLOCKS\<close> those of the blocks at the indices from \<open>currentIndex\<close> on, one per line
  and in order (\<open>None\<close> for an empty part), so every block of the buffer is shown in exactly
  one of the two.  \<open>USER MESSAGES\<close> shows, one per line and in order, the contents of the
  entries of \<open>recentHistory\<close> whose role is \<open>user\<close>, and nothing else: two histories with the
  same user entries give the same prompt, so an entry with any other role does not change
  the prompt at all.
\<close>

theorem updateCheck_prompt_sections:
  "(let texts = map blockText currentBuffer;
        sent = map (\<lambda>j. texts ! j) [0 ..< min idx (length texts)];
        pending = map (\<lambda>j. texts ! j) [idx ..< length texts];
        msgs = map content (filter (\<lambda>m. role m = ''user'') recentHistory);
        lines = (\<lambda>xs. butlast (concat (map (\<lambda>x. x @ [CHR 0x0A]) xs)))
    in checkPrompt p recentHistory currentBuffer idx =
         p @ [CHR 0x0A, CHR 0x0A] @ ''SENT BLOCKS:'' @ [CHR 0x0A]
           @ (if sent = [] then ''None'' else lines sent)
           @ [CHR 0x0A, CHR 0x0A] @ ''PENDING BLOCKS:'' @ [CHR 0x0A]
           @ (if pending = [] then ''None'' else lines pending)
           @ [CHR 0x0A, CHR 0x0A] @ ''USER MESSAGES:'' @ [CHR 0x0A]
           @ lines msgs
       \<and> sent @ pending = texts)
   \<and> (filter (\<lambda>m. role m = ''user'') recentHistory' = filter (\<lambda>m. role m = ''user'') recentHistory
        \<longrightarrow> checkPrompt p recentHistory' currentBuffer idx
            = checkPrompt p recentHistory currentBuffer idx)
   \<and> (role other \<noteq> ''user'' \<longrightarrow>
        checkPrompt p (xs @ other # ys) currentBuffer idx = checkPrompt p (xs @ ys) currentBuffer idx)"
proof -
  have split: "map (\<lambda>j. map blockText currentBuffer ! j) [0 ..< min idx (length (map blockText currentBuffer))]
        = map blockText (take idx currentBuffer)"
    "map (\<lambda>j. map blockText currentBuffer ! j) [idx ..< length (map blockText currentBuffer)]
        = map blockText (drop idx currentBuffer)"
    by (simp_all only: take_by_index[symmetric] drop_by_index[symmetric] take_map drop_map)
  have none: "(if map blockText bs = [] then ''None''
               else butlast (concat (map (\<lambda>x. x @ [CHR 0x0A]) (map blockText bs))))
      = blocksText bs" for bs
    by (simp add: blocksText_def join_lines)
  have parts: "sentBlocks currentBuffer idx = take idx currentBuffer"
    "pendingBlocks currentBuffer idx = drop idx currentBuffer"
    by (simp_all add: sentBlocks_def pendingBlocks_def)
  have prompt: "checkPrompt p recentHistory currentBuffer idx =
         p @ [CHR 0x0A, CHR 0x0A] @ ''SENT BLOCKS:'' @ [CHR 0x0A]
           @ blocksText (take idx currentBuffer)
           @ [CHR 0x0A, CHR 0x0A] @ ''PENDING BLOCKS:'' @ [CHR 0x0A]
           @ blocksText (drop idx currentBuffer)
           @ [CHR 0x0A, CHR 0x0A] @ ''USER MESSAGES:'' @ [CHR 0x0A]
           @ butlast (concat (map (\<lambda>x. x @ [CHR 0x0A])
                (map content (filter (\<lambda>m. role m = ''user'') recentHistory))))"
    by (simp add: checkPrompt_def parts userMessagesText_def userMessages_def join_lines)
  have same: "checkPrompt p h' currentBuffer idx = checkPrompt p h currentBuffer idx"
    if "filter (\<lambda>m. role m = ''user'') h' = filter (\<lambda>m. role m = ''user'') h" for h h'
    using that by (simp add: checkPrompt_def userMessagesText_def userMessages_def)
  have other: "checkPrompt p (xs @ other # ys) currentBuffer idx = checkPrompt p (xs @ ys) currentBuffer idx"
    if "role other \<noteq> ''user''"
    using that by (intro same) simp
  show ?thesis
    unfolding Let_def split none
  proof (intro conjI impI)
    show "checkPrompt p recentHistory currentBuffer idx =
         p @ [CHR 0x0A, CHR 0x0A] @ ''SENT BLOCKS:'' @ [CHR 0x0A]
           @ blocksText (take idx currentBuffer)
           @ [CHR 0x0A, CHR 0x0A] @ ''PENDING BLOCKS:'' @ [CHR 0x0A]
           @ blocksText (drop idx currentBuffer)
           @ [CHR 0x0A, CHR 0x0A] @ ''USER MESSAGES:'' @ [CHR 0x0A]
           @ butlast (concat (map (\<lambda>x. x @ [CHR 0x0A])
                (map content (filter (\<lambda>m. role m = ''user'') recentHistory))))"
      by (rule prompt)
    show "map blockText (take idx currentBuffer) @ map blockText (drop idx currentBuffer)
        = map blockText currentBuffer"
      by (simp flip: map_append)
    show "checkPrompt p recentHistory' currentBuffer idx = checkPrompt p recentHistory currentBuffer idx"
      if "filter (\<lambda>m. role m = ''user'') recentHistory' = filter (\<lambda>m. role m = ''user'') recentHistory"
      using that by (rule same)
    show "checkPrompt p (xs @ other # ys) currentBuffer idx = checkPrompt p (xs @ ys) currentBuffer idx"
      if "role other \<noteq> ''user''"
      using that by (rule other)
  qed
qed

text \<open>The theorem for a history of two user messages around one model message and the
  three example blocks with the cursor at 1, and for an empty buffer.\<close>

theorem updateCheck_prompt_sections_witness:
  "role \<lparr> role = ''model'', content = ''a'' \<rparr> \<noteq> ''user''
   \<and> checkPrompt ''P'' [\<lparr> role = ''user'', content = ''hi'' \<rparr>, \<lparr> role = ''model'', content = ''a'' \<rparr>,
                   \<lparr> role = ''user'', content = ''wait'' \<rparr>] [blockA, blockB, blockC] 1
     = ''P'' @ [CHR 0x0A, CHR 0x0A] @ ''SENT BLOCKS:'' @ [CHR 0x0A] @ ''a''
         @ [CHR 0x0A, CHR 0x0A] @ ''PENDING BLOCKS:'' @ [CHR 0x0A] @ ''b'' @ [CHR 0x0A] @ ''c''
         @ [CHR 0x0A, CHR 0x0A] @ ''USER MESSAGES:'' @ [CHR 0x0A] @ ''hi'' @ [CHR 0x0A] @ ''wait''
   \<and> checkPrompt ''P'' [\<lparr> role = ''user'', content = ''hi'' \<rparr>, \<lparr> role = ''model'', content = ''a'' \<rparr>,
                   \<lparr> role = ''user'', content = ''wait'' \<rparr>] [blockA, blockB, blockC] 1
     = checkPrompt ''P'' [\<lparr> role = ''user'', content = ''hi'' \<rparr>,
                   \<lparr> role = ''user'', content = ''wait'' \<rparr>] [blockA, blockB, blockC] 1
   \<and> checkPrompt ''P'' [\<lparr> role = ''model'', content = ''a'' \<rparr>] [] 0
     = ''P'' @ [CHR 0x0A, CHR 0x0A] @ ''SENT BLOCKS:'' @ [CHR 0x0A] @ ''None''
         @ [CHR 0x0A, CHR 0x0A] @ ''PENDING BLOCKS:'' @ [CHR 0x0A] @ ''None''
         @ [CHR 0x0A, CHR 0x0A] @ ''USER MESSAGES:'' @ [CHR 0x0A]"
proof -
  let ?h = "[\<lparr> role = ''user'', content = ''hi'' \<rparr>, \<lparr> role = ''model'', content = ''a'' \<rparr>,
             \<lparr> role = ''user'', content = ''wait'' \<rparr>]"
  have m: "role \<lparr> role = ''model'', content = ''a'' \<rparr> \<noteq> ''user''" by simp
  note t = updateCheck_prompt_sections[of "[blockA, blockB, blockC]" 1 ?h "''P''" ?h
      "\<lparr> role = ''model'', content = ''a'' \<rparr>"
      "[\<lparr> role = ''user'', content = ''hi'' \<rparr>]" "[\<lparr> role = ''user'', content = ''wait'' \<rparr>]"]
  from t[THEN conjunct1]
  have a: "checkPrompt ''P'' ?h [blockA, blockB, blockC] 1
     = ''P'' @ [CHR 0x0A, CHR 0x0A] @ ''SENT BLOCKS:'' @ [CHR 0x0A] @ ''a''
         @ [CHR 0x0A, CHR 0x0A] @ ''PENDING BLOCKS:'' @ [CHR 0x0A] @ ''b'' @ [CHR 0x0A] @ ''c''
         @ [CHR 0x0A, CHR 0x0A] @ ''USER MESSAGES:'' @ [CHR 0x0A] @ ''hi'' @ [CHR 0x0A] @ ''wait''"
    by (simp add: Let_def blockA_def blockB_def blockC_def upt_rec[of 0] upt_rec[of 1] upt_rec[of 2])
  from t[THEN conjunct2, THEN conjunct2] m
  have b: "checkPrompt ''P'' ?h [blockA, blockB, blockC] 1
     = checkPrompt ''P'' [\<lparr> role = ''user'', content = ''hi'' \<rparr>,
                   \<lparr> role = ''user'', content = ''wait'' \<rparr>] [blockA, blockB, blockC] 1"
    by simp
  from updateCheck_prompt_sections[of "[]" 0 "[\<lparr> role = ''model'', content = ''a'' \<rparr>]" "''P''"
      "[]" "\<lparr> role = ''model'', content = ''a'' \<rparr>" "[]" "[]", THEN conjunct1]
  have c: "checkPrompt ''P'' [\<lparr> role = ''model'', content = ''a'' \<rparr>] [] 0
     = ''P'' @ [CHR 0x0A, CHR 0x0A] @ ''SENT BLOCKS:'' @ [CHR 0x0A] @ ''None''
         @ [CHR 0x0A, CHR 0x0A] @ ''PENDING BLOCKS:'' @ [CHR 0x0A] @ ''None''
         @ [CHR 0x0A, CHR 0x0A] @ ''USER MESSAGES:'' @ [CHR 0x0A]"
    by (simp add: Let_def)
  from m a b c show ?thesis by (simp only: simp_thms)
qed


end
